theory Spec2Isabelle
  imports Main "HOL-Library.Word" "HOL-Library.Multiset" "HOL-Library.Sublist" "HOL-Library.AList"
begin

section \<open>JavaScript strings\<close>

text \<open>
  A JavaScript string is a sequence of UTF-16 code units. \<^verbatim>\<open>split('')\<close>, \<^verbatim>\<open>slice\<close>,
  \<^verbatim>\<open>length\<close> and \<^verbatim>\<open>data[i]\<close> work on code units; \<^verbatim>\<open>for (const char of word)\<close>
  iterates code points: a high surrogate directly followed by a low surrogate is one
  \<^verbatim>\<open>char\<close> of two code units, every other code unit is a \<^verbatim>\<open>char\<close> of its own.
\<close>

type_synonym code_unit = "16 word"
type_synonym jsstring = "code_unit list"

definition utf16 :: "string \<Rightarrow> jsstring" where
  "utf16 s = map of_char s"

definition isHighSurrogate :: "code_unit \<Rightarrow> bool" where
  "isHighSurrogate c = (0xD800 \<le> c \<and> c \<le> 0xDBFF)"

definition isLowSurrogate :: "code_unit \<Rightarrow> bool" where
  "isLowSurrogate c = (0xDC00 \<le> c \<and> c \<le> 0xDFFF)"

fun codePoints :: "jsstring \<Rightarrow> jsstring list" where
  "codePoints [] = []"
| "codePoints [c] = [[c]]"
| "codePoints (c # d # cs) =
     (if isHighSurrogate c \<and> isLowSurrogate d then [c, d] # codePoints cs
      else [c] # codePoints (d # cs))"

section \<open>TrieNode and Trie\<close>

text \<open>
  \<^verbatim>\<open>children\<close> is an object keyed by the \<^verbatim>\<open>char\<close> of the iteration (a string of one
  code point); no property of \<^verbatim>\<open>Object.prototype\<close> has so short a name, so a lookup
  finds own children only. \<^verbatim>\<open>value\<close> is whatever \<^verbatim>\<open>insert\<close> was given: an id of the
  vocabulary, or the object \<^verbatim>\<open>this.model[newToken]\<close> reads when the vocabulary has no
  such own property (see \<open>vocab_read\<close>). A \<^verbatim>\<open>Trie\<close> is its root node.
\<close>

datatype jsid = Id int | ObjectPrototype

datatype trie =
  TrieNode (children: "jsstring \<Rightarrow> trie option") (isEndOfWord: bool) (node_value: "jsid option")

definition new_TrieNode :: trie where
  "new_TrieNode = TrieNode Map.empty False None"

fun insert_chars :: "trie \<Rightarrow> jsstring list \<Rightarrow> jsid \<Rightarrow> trie" where
  "insert_chars node [] v = TrieNode (children node) True (Some v)"
| "insert_chars node (char # rest) v =
     (let child = (case children node char of None \<Rightarrow> new_TrieNode | Some n \<Rightarrow> n)
      in TrieNode ((children node)(char \<mapsto> insert_chars child rest v))
           (isEndOfWord node) (node_value node))"

definition trie_insert :: "trie \<Rightarrow> jsstring \<Rightarrow> jsid \<Rightarrow> trie" where
  "trie_insert root word v = insert_chars root (codePoints word) v"

text \<open>The loop of \<^verbatim>\<open>longestPrefixMatch\<close>: \<open>None\<close> is \<^verbatim>\<open>null\<close>.\<close>

fun match_chars :: "trie \<Rightarrow> jsstring option \<Rightarrow> jsstring \<Rightarrow> jsstring list \<Rightarrow> jsstring option" where
  "match_chars node lastMatch currentPrefix [] = lastMatch"
| "match_chars node lastMatch currentPrefix (char # rest) =
     (case children node char of
        None \<Rightarrow> lastMatch
      | Some child \<Rightarrow>
          match_chars child
            (if isEndOfWord child then Some (currentPrefix @ char) else lastMatch)
            (currentPrefix @ char) rest)"

definition longestPrefixMatch :: "trie \<Rightarrow> jsstring \<Rightarrow> jsstring option" where
  "longestPrefixMatch root word = match_chars root None [] (codePoints word)"

section \<open>The engine and tokenize\<close>

text \<open>
  The vocabulary \<^verbatim>\<open>this.model\<close> is an object from token text to id, kept as an
  association list with distinct keys in insertion order.
\<close>

type_synonym vocab = "(jsstring \<times> int) list"

record BPE =
  model_name :: jsstring
  verbose :: bool
  trained :: bool
  model :: vocab
  trie :: trie

text \<open>
  One iteration of the \<^verbatim>\<open>while\<close> loop of \<^verbatim>\<open>tokenize\<close>, at a position \<open>i < length data\<close>:
  \<^verbatim>\<open>if (longestMatch)\<close> takes the else branch for \<^verbatim>\<open>null\<close> and for the empty string.
\<close>

definition tokenize_step :: "trie \<Rightarrow> jsstring \<Rightarrow> nat \<Rightarrow> jsstring list \<Rightarrow> nat \<times> jsstring list" where
  "tokenize_step t data i tokens =
     (case longestPrefixMatch t (drop i data) of
        Some longestMatch \<Rightarrow>
          if longestMatch \<noteq> [] then (i + length longestMatch, tokens @ [longestMatch])
          else (i + 1, tokens @ [[data ! i]])
      | None \<Rightarrow> (i + 1, tokens @ [[data ! i]]))"

partial_function (option) tokenize_loop ::
  "trie \<Rightarrow> jsstring \<Rightarrow> nat \<Rightarrow> jsstring list \<Rightarrow> jsstring list option" where
  "tokenize_loop t data i tokens =
     (if i < length data then
        (case tokenize_step t data i tokens of (i', tokens') \<Rightarrow> tokenize_loop t data i' tokens')
      else Some tokens)"

definition tokenize :: "BPE \<Rightarrow> jsstring \<Rightarrow> jsstring list option" where
  "tokenize this data = tokenize_loop (trie this) data 0 []"

section \<open>What the trie holds\<close>

text \<open>
  \<open>is_word node chars\<close>: the path \<open>chars\<close> from \<open>node\<close> exists and ends in a node marked
  \<^verbatim>\<open>isEndOfWord\<close>. \<open>trie_of\<close> is a trie filled from empty by a sequence of \<^verbatim>\<open>insert\<close>
  calls, as the constructor and \<^verbatim>\<open>train\<close> fill \<^verbatim>\<open>this.trie\<close>.
\<close>

fun is_word :: "trie \<Rightarrow> jsstring list \<Rightarrow> bool" where
  "is_word node [] = isEndOfWord node"
| "is_word node (char # rest) =
     (case children node char of None \<Rightarrow> False | Some child \<Rightarrow> is_word child rest)"

definition trie_of :: "(jsstring \<times> jsid) list \<Rightarrow> trie" where
  "trie_of entries = fold (\<lambda>(word, v) root. trie_insert root word v) entries new_TrieNode"

section \<open>Numbers, values and errors\<close>

text \<open>
  Priorities and frequencies are JavaScript numbers. The model keeps the integers (counts
  and their negations, far below \<open>2^53\<close>) and \<^verbatim>\<open>NaN\<close>, which \<^verbatim>\<open>-pairFreqs[pair]\<close> yields
  when the stored value is not a number. A comparison with \<^verbatim>\<open>NaN\<close> is false.
\<close>

datatype jsnum = Num int | NaN

fun js_ge :: "jsnum \<Rightarrow> jsnum \<Rightarrow> bool" where
  "js_ge (Num a) (Num b) = (a \<ge> b)"
| "js_ge _ _ = False"

fun js_gt :: "jsnum \<Rightarrow> jsnum \<Rightarrow> bool" where
  "js_gt (Num a) (Num b) = (a > b)"
| "js_gt _ _ = False"

fun js_neg :: "jsnum \<Rightarrow> jsnum" where
  "js_neg (Num a) = Num (- a)"
| "js_neg NaN = NaN"

text \<open>
  The values an element of \<^verbatim>\<open>tokens\<close> or a pair can be: a string, \<^verbatim>\<open>undefined\<close> (a read
  beyond the end of the array) and the number \<^verbatim>\<open>NaN\<close> (\<^verbatim>\<open>undefined + undefined\<close>).
\<close>

datatype jsval = JStr jsstring | JUndefined | JNaN

text \<open>
  The exceptions: \<^verbatim>\<open>Error('Cannot train nonstring')\<close>, \<^verbatim>\<open>Error('Heap is empty')\<close>, the
  \<^verbatim>\<open>TypeError\<close> of \<^verbatim>\<open>best.replace\<close> when \<^verbatim>\<open>best\<close> is not a string, and the error
  \<^verbatim>\<open>fs.writeFileSync\<close> throws when the file cannot be written.
\<close>

datatype error = CannotTrainNonstring | HeapIsEmpty | NotAFunction | WriteFailed

section \<open>MaxHeap\<close>

text \<open>
  The heap is the array \<^verbatim>\<open>this.heap\<close> of items \<^verbatim>\<open>[priority, payload]\<close>. \<^verbatim>\<open>insert\<close> calls
  \<^verbatim>\<open>bubbleUp\<close> at the last index and \<^verbatim>\<open>extractMax\<close> calls \<^verbatim>\<open>bubbleDown\<close> at index 0 of a
  non-empty array, so every read \<open>h ! i\<close> below is inside the array: \<^verbatim>\<open>bubbleUp\<close> reads
  its index and the parent, \<^verbatim>\<open>bubbleDown\<close> reads a child only after comparing its index
  with the length.
\<close>

type_synonym entry = "jsnum \<times> jsval"
type_synonym maxheap = "entry list"

definition isEmpty :: "maxheap \<Rightarrow> bool" where
  "isEmpty h = (length h = 0)"

definition swap :: "maxheap \<Rightarrow> nat \<Rightarrow> nat \<Rightarrow> maxheap" where
  "swap h i j = h[i := h ! j, j := h ! i]"

function bubbleUp :: "maxheap \<Rightarrow> nat \<Rightarrow> maxheap" where
  "bubbleUp h index =
     (if index > 0 then
        (let parentIndex = (index - 1) div 2 in
         if js_ge (fst (h ! parentIndex)) (fst (h ! index)) then h
         else bubbleUp (swap h parentIndex index) parentIndex)
      else h)"
  by pat_completeness auto
termination
  by (relation "measure snd") auto

declare bubbleUp.simps [simp del]

text \<open>The body of the \<^verbatim>\<open>while (true)\<close> of \<^verbatim>\<open>bubbleDown\<close> up to the test \<^verbatim>\<open>largest === index\<close>.\<close>

definition pick_largest :: "maxheap \<Rightarrow> nat \<Rightarrow> nat" where
  "pick_largest h index =
     (let largest = index;
          leftChild = 2 * index + 1;
          rightChild = 2 * index + 2;
          largest = (if leftChild < length h \<and> js_gt (fst (h ! leftChild)) (fst (h ! largest))
                     then leftChild else largest);
          largest = (if rightChild < length h \<and> js_gt (fst (h ! rightChild)) (fst (h ! largest))
                     then rightChild else largest)
      in largest)"

lemma pick_largest_bounds:
  "pick_largest h index \<noteq> index \<Longrightarrow>
     index < pick_largest h index \<and> pick_largest h index < length h"
  by (auto simp: pick_largest_def Let_def split: if_splits)

function bubbleDown :: "maxheap \<Rightarrow> nat \<Rightarrow> maxheap" where
  "bubbleDown h index =
     (let largest = pick_largest h index in
      if largest = index then h
      else bubbleDown (swap h index largest) largest)"
  by pat_completeness auto
termination
proof (relation "measure (\<lambda>(h, index). length h - index)")
  fix h index x
  assume "x = pick_largest h index" "x \<noteq> index"
  with pick_largest_bounds [of h index]
  show "((swap h index x, x), (h, index)) \<in> measure (\<lambda>(h, index). length h - index)"
    by (auto simp: swap_def)
qed simp

declare bubbleDown.simps [simp del]

definition heap_insert :: "maxheap \<Rightarrow> entry \<Rightarrow> maxheap" where
  "heap_insert h item = bubbleUp (h @ [item]) (length (h @ [item]) - 1)"

definition extractMax :: "maxheap \<Rightarrow> error + entry \<times> maxheap" where
  "extractMax h =
     (if isEmpty h then Inl HeapIsEmpty
      else
        (let max = h ! 0; last = last h; h' = butlast h in
         if length h' > 0 then Inr (max, bubbleDown (h'[0 := last]) 0)
         else Inr (max, h')))"

subsection \<open>The heap invariant and sequences of heap operations\<close>

text \<open>
  \<open>heapInvariant\<close>: the priority of every node is \<^verbatim>\<open>>=\<close> the priorities of both children.
  \<open>run_ops\<close> performs a sequence of \<^verbatim>\<open>insert\<close> and \<^verbatim>\<open>extractMax\<close> calls (an \<^verbatim>\<open>extractMax\<close> on
  the empty heap throws and leaves the heap as it is); \<open>extract_n n\<close> is \<open>n\<close> calls of
  \<^verbatim>\<open>extractMax\<close> in a row, stopping when the heap is empty, and returns the extracted
  items in order with the heap that is left.
\<close>

definition heapInvariant :: "maxheap \<Rightarrow> bool" where
  "heapInvariant h =
     (\<forall>i \<in> {0..<length h}.
        (2 * i + 1 < length h \<longrightarrow> js_ge (fst (h ! i)) (fst (h ! (2 * i + 1)))) \<and>
        (2 * i + 2 < length h \<longrightarrow> js_ge (fst (h ! i)) (fst (h ! (2 * i + 2)))))"

datatype heap_op = Insert entry | ExtractMax

fun run_ops :: "heap_op list \<Rightarrow> maxheap \<Rightarrow> maxheap" where
  "run_ops [] h = h"
| "run_ops (Insert item # ops) h = run_ops ops (heap_insert h item)"
| "run_ops (ExtractMax # ops) h =
     (case extractMax h of Inl e \<Rightarrow> run_ops ops h | Inr (m, h') \<Rightarrow> run_ops ops h')"

fun numeric_op :: "heap_op \<Rightarrow> bool" where
  "numeric_op (Insert item) = (fst item \<noteq> NaN)"
| "numeric_op ExtractMax = True"

fun extract_n :: "nat \<Rightarrow> maxheap \<Rightarrow> entry list \<times> maxheap" where
  "extract_n 0 h = ([], h)"
| "extract_n (Suc n) h =
     (case extractMax h of
        Inl e \<Rightarrow> ([], h)
      | Inr (m, h') \<Rightarrow> (case extract_n n h' of (ms, h'') \<Rightarrow> (m # ms, h'')))"

text \<open>Notions for the proofs: numeric priorities as integers, and the parent of an index.\<close>

definition numeric :: "maxheap \<Rightarrow> bool" where
  "numeric h = list_all (\<lambda>e. fst e \<noteq> NaN) h"

definition prio :: "entry \<Rightarrow> int" where
  "prio e = (case fst e of Num n \<Rightarrow> n | NaN \<Rightarrow> 0)"

definition parent :: "nat \<Rightarrow> nat" where
  "parent i = (i - 1) div 2"

definition parent_ok :: "maxheap \<Rightarrow> nat \<Rightarrow> bool" where
  "parent_ok h i = (prio (h ! i) \<le> prio (h ! parent i))"

definition parent_inv :: "maxheap \<Rightarrow> bool" where
  "parent_inv h = (\<forall>i. 0 < i \<and> i < length h \<longrightarrow> parent_ok h i)"

definition up_pre :: "maxheap \<Rightarrow> nat \<Rightarrow> bool" where
  "up_pre h k =
     ((\<forall>i. 0 < i \<and> i < length h \<and> i \<noteq> k \<longrightarrow> parent_ok h i) \<and>
      (\<forall>c. 0 < c \<and> c < length h \<and> parent c = k \<and> 0 < k \<longrightarrow>
           prio (h ! c) \<le> prio (h ! parent k)))"

definition down_pre :: "maxheap \<Rightarrow> nat \<Rightarrow> bool" where
  "down_pre h k =
     ((\<forall>i. 0 < i \<and> i < length h \<and> parent i \<noteq> k \<longrightarrow> parent_ok h i) \<and>
      (\<forall>c. 0 < c \<and> c < length h \<and> parent c = k \<and> 0 < k \<longrightarrow>
           prio (h ! c) \<le> prio (h ! parent k)))"

section \<open>The values train computes with\<close>

text \<open>
  \<^verbatim>\<open>+\<close> on the values of \<^verbatim>\<open>tokens\<close>: strings concatenate, \<^verbatim>\<open>undefined\<close> and \<^verbatim>\<open>NaN\<close> next
  to a string become the texts \<^verbatim>\<open>"undefined"\<close> and \<^verbatim>\<open>"NaN"\<close>, and without a string the
  sum is the number \<^verbatim>\<open>NaN\<close>. A value used as a property name is converted to a string.
\<close>

fun js_plus :: "jsval \<Rightarrow> jsval \<Rightarrow> jsval" where
  "js_plus (JStr a) (JStr b) = JStr (a @ b)"
| "js_plus (JStr a) JUndefined = JStr (a @ utf16 ''undefined'')"
| "js_plus (JStr a) JNaN = JStr (a @ utf16 ''NaN'')"
| "js_plus JUndefined (JStr b) = JStr (utf16 ''undefined'' @ b)"
| "js_plus JNaN (JStr b) = JStr (utf16 ''NaN'' @ b)"
| "js_plus _ _ = JNaN"

fun toPropertyKey :: "jsval \<Rightarrow> jsstring" where
  "toPropertyKey (JStr s) = s"
| "toPropertyKey JUndefined = utf16 ''undefined''"
| "toPropertyKey JNaN = utf16 ''NaN''"

text \<open>
  The array \<^verbatim>\<open>tokens\<close>: a read beyond the end is \<^verbatim>\<open>undefined\<close>, an assignment beyond the
  end extends the array (the holes read as \<^verbatim>\<open>undefined\<close>), and \<^verbatim>\<open>splice(i, 1)\<close> removes
  the element at \<open>i\<close> if there is one.
\<close>

definition js_index :: "jsval list \<Rightarrow> nat \<Rightarrow> jsval" where
  "js_index xs i = (if i < length xs then xs ! i else JUndefined)"

definition js_assign :: "jsval list \<Rightarrow> nat \<Rightarrow> jsval \<Rightarrow> jsval list" where
  "js_assign xs i v =
     (if i < length xs then xs[i := v]
      else xs @ replicate (i - length xs) JUndefined @ [v])"

definition js_splice1 :: "jsval list \<Rightarrow> nat \<Rightarrow> jsval list" where
  "js_splice1 xs i = take i xs @ drop (Suc i) xs"

text \<open>
  \<^verbatim>\<open>pairFreqs\<close> is an object literal, so a read of a name it does not own finds the
  properties of \<^verbatim>\<open>Object.prototype\<close>. Such a value is a function or an object: it is
  truthy, \<^verbatim>\<open>(v || 0) + 1\<close> is a string, and its negation is \<^verbatim>\<open>NaN\<close>; the model calls
  these values \<open>Junk\<close>. An assignment to \<^verbatim>\<open>__proto__\<close> of a value that is not an object
  stores nothing.
\<close>

definition objectPrototypeKeys :: "jsstring list" where
  "objectPrototypeKeys = map utf16
     [''constructor'', ''hasOwnProperty'', ''isPrototypeOf'', ''propertyIsEnumerable'',
      ''toLocaleString'', ''toString'', ''valueOf'', ''__proto__'', ''__defineGetter__'',
      ''__defineSetter__'', ''__lookupGetter__'', ''__lookupSetter__'']"

datatype pfval = Freq int | Junk

type_synonym pair_freqs = "(jsstring \<times> pfval) list"

definition pf_get :: "pair_freqs \<Rightarrow> jsstring \<Rightarrow> pfval option" where
  "pf_get pf key =
     (case map_of pf key of
        Some v \<Rightarrow> Some v
      | None \<Rightarrow> if key \<in> set objectPrototypeKeys then Some Junk else None)"

text \<open>\<^verbatim>\<open>pairFreqs[pair] = (pairFreqs[pair] || 0) + 1\<close>\<close>

definition pf_increment :: "pair_freqs \<Rightarrow> jsstring \<Rightarrow> pair_freqs" where
  "pf_increment pf key =
     (let v = (case pf_get pf key of
                 None \<Rightarrow> Freq 1
               | Some (Freq n) \<Rightarrow> Freq (n + 1)
               | Some Junk \<Rightarrow> Junk)
      in if key = utf16 ''__proto__'' \<and> map_of pf key = None then pf
         else AList.update key v pf)"

fun pfval_neg :: "pfval \<Rightarrow> jsnum" where
  "pfval_neg (Freq n) = Num (- n)"
| "pfval_neg Junk = NaN"

text \<open>\<^verbatim>\<open>-pairFreqs[pair]\<close>\<close>

definition pf_neg :: "pair_freqs \<Rightarrow> jsstring \<Rightarrow> jsnum" where
  "pf_neg pf key = (case pf_get pf key of Some v \<Rightarrow> pfval_neg v | None \<Rightarrow> NaN)"

text \<open>
  \<^verbatim>\<open>Object.entries\<close> lists the properties whose names are array indices (canonical
  decimal numerals below \<open>2^32 - 1\<close>) first, in ascending numeric order, and then the
  other names in the order of their creation.
\<close>

definition isDigit :: "code_unit \<Rightarrow> bool" where
  "isDigit c = (0x30 \<le> c \<and> c \<le> 0x39)"

definition arrayIndex :: "jsstring \<Rightarrow> int option" where
  "arrayIndex key =
     (if key \<noteq> [] \<and> list_all isDigit key \<and> (length key = 1 \<or> hd key \<noteq> 0x30) then
        (let n = foldl (\<lambda>a c. 10 * a + (uint c - 48)) 0 key
         in if n < 4294967295 then Some n else None)
      else None)"

definition objectEntries :: "(jsstring \<times> 'v) list \<Rightarrow> (jsstring \<times> 'v) list" where
  "objectEntries obj =
     sort_key (\<lambda>(key, v). the (arrayIndex key)) (filter (\<lambda>(key, v). arrayIndex key \<noteq> None) obj)
     @ filter (\<lambda>(key, v). arrayIndex key = None) obj"

section \<open>The constructor\<close>

text \<open>
  The file system holds parsed vocabularies by file name. \<^verbatim>\<open>_load_vocabulary\<close> reads the
  file \<^verbatim>\<open>model_name\<close> if it exists and yields the value of \<^verbatim>\<open>this.trained\<close> with the
  vocabulary; the constructor inserts every entry into a new trie.
\<close>

type_synonym files = "jsstring \<Rightarrow> vocab option"

definition load_vocabulary :: "files \<Rightarrow> jsstring \<Rightarrow> bool \<times> vocab" where
  "load_vocabulary fs name = (case fs name of Some v \<Rightarrow> (True, v) | None \<Rightarrow> (False, []))"

definition new_BPE :: "files \<Rightarrow> jsstring \<Rightarrow> bool \<Rightarrow> BPE" where
  "new_BPE fs name verb =
     (let (loaded, m) = load_vocabulary fs name
      in \<lparr>model_name = name, verbose = verb, trained = loaded, model = m,
          trie = fold (\<lambda>(key, v) t. trie_insert t key (Id v)) (objectEntries m) new_TrieNode\<rparr>)"

section \<open>train\<close>

text \<open>
  The first loop of \<^verbatim>\<open>train\<close>: \<^verbatim>\<open>for (let i = 0; i < tokens.length - 1; i++)\<close> counts the
  pair at \<open>(i, i + 1)\<close> and records the two positions.
\<close>

function count_pairs ::
  "jsval list \<Rightarrow> nat \<Rightarrow> pair_freqs \<times> (nat \<times> nat) list \<Rightarrow> pair_freqs \<times> (nat \<times> nat) list" where
  "count_pairs toks i (pf, tps) =
     (if i + 1 < length toks then
        (let pair = toPropertyKey (js_plus (toks ! i) (toks ! (i + 1)))
         in count_pairs toks (i + 1) (pf_increment pf pair, tps @ [(i, i + 1)]))
      else (pf, tps))"
  by pat_completeness auto
termination
  by (relation "measure (\<lambda>(toks, i, acc). length toks - i)") auto

declare count_pairs.simps [simp del]

text \<open>
  The state of a \<^verbatim>\<open>train\<close> call: the engine \<^verbatim>\<open>this\<close> and the local variables.
\<close>

record train_state =
  bpe :: BPE
  tokens :: "jsval list"
  pairFreqs :: pair_freqs
  tokenPairs :: "(nat \<times> nat) list"
  heap :: maxheap
  newTokenPairs :: "(nat \<times> nat) list"

text \<open>
  \<^verbatim>\<open>this.model[newToken] = Object.keys(this.model).length + 1\<close> and the read
  \<^verbatim>\<open>this.model[newToken]\<close> that follows it. The vocabulary is an object too: the
  assignment of a number to \<^verbatim>\<open>__proto__\<close> stores nothing unless the object owns such a
  property (a parsed file can), and the read then yields \<^verbatim>\<open>Object.prototype\<close>.
  \<open>vocab_read\<close> is used right after \<open>vocab_assign\<close> only.
\<close>

definition vocab_assign :: "vocab \<Rightarrow> jsstring \<Rightarrow> int \<Rightarrow> vocab" where
  "vocab_assign m key v =
     (if key = utf16 ''__proto__'' \<and> map_of m key = None then m else AList.update key v m)"

definition vocab_read :: "vocab \<Rightarrow> jsstring \<Rightarrow> jsid" where
  "vocab_read m key = (case map_of m key of Some v \<Rightarrow> Id v | None \<Rightarrow> ObjectPrototype)"

text \<open>
  The three statements for \<^verbatim>\<open>prevPair\<close> and for \<^verbatim>\<open>nextPair\<close>: count the pair, insert it
  into the heap with the negated count, push the two positions.
\<close>

definition push_pair :: "jsval \<Rightarrow> nat \<times> nat \<Rightarrow> train_state \<Rightarrow> train_state" where
  "push_pair pair idx s =
     (let key = toPropertyKey pair;
          pf = pf_increment (pairFreqs s) key
      in s\<lparr>pairFreqs := pf,
            heap := heap_insert (heap s) (pf_neg pf key, pair),
            newTokenPairs := newTokenPairs s @ [idx]\<rparr>)"

text \<open>
  The body of \<^verbatim>\<open>for (let j = 0; j < tokenPairs.length; j++)\<close>. The positions come from
  \<^verbatim>\<open>tokenPairs\<close> as they were recorded; \<^verbatim>\<open>tokens\<close> is read after the assignment and the
  \<^verbatim>\<open>splice\<close>.
\<close>

definition rescan_step :: "jsstring \<Rightarrow> nat \<Rightarrow> train_state \<Rightarrow> train_state" where
  "rescan_step newToken j s =
     (case tokenPairs s ! j of (left, right) \<Rightarrow>
        if js_plus (js_index (tokens s) left) (js_index (tokens s) right) = JStr newToken then
          (let s = s\<lparr>tokens := js_splice1 (js_assign (tokens s) left (JStr newToken)) right\<rparr>;
               s = (if j > 0 then
                      push_pair
                        (js_plus (js_index (tokens s) (fst (tokenPairs s ! (j - 1))))
                                 (js_index (tokens s) left))
                        (fst (tokenPairs s ! (j - 1)), left) s
                    else s);
               s = (if j + 1 < length (tokenPairs s) then
                      push_pair
                        (js_plus (js_index (tokens s) left)
                                 (js_index (tokens s) (snd (tokenPairs s ! (j + 1)))))
                        (left, snd (tokenPairs s ! (j + 1))) s
                    else s)
           in s)
        else s\<lparr>newTokenPairs := newTokenPairs s @ [(left, right)]\<rparr>)"

lemma tokenPairs_rescan_step [simp]: "tokenPairs (rescan_step newToken j s) = tokenPairs s"
  by (simp add: rescan_step_def push_pair_def Let_def split: prod.splits)

function rescan_loop :: "jsstring \<Rightarrow> nat \<Rightarrow> train_state \<Rightarrow> train_state" where
  "rescan_loop newToken j s =
     (if j < length (tokenPairs s) then rescan_loop newToken (j + 1) (rescan_step newToken j s)
      else s)"
  by pat_completeness auto
termination
  by (relation "measure (\<lambda>(newToken, j, s). length (tokenPairs s) - j)") auto

declare rescan_loop.simps [simp del]

text \<open>
  \<^verbatim>\<open>best.replace('%', '')\<close> removes the first \<^verbatim>\<open>%\<close> of a string; a number has no
  \<^verbatim>\<open>replace\<close> method and the call throws.
\<close>

definition best_replace :: "jsval \<Rightarrow> error + jsstring" where
  "best_replace best =
     (case best of JStr s \<Rightarrow> Inr (remove1 0x25 s) | _ \<Rightarrow> Inl NotAFunction)"

text \<open>One merge: the new vocabulary entry, the trie insert, the rescan, the new pair list.\<close>

definition apply_merge :: "jsstring \<Rightarrow> train_state \<Rightarrow> train_state" where
  "apply_merge newToken s =
     (let this = bpe s;
          m = vocab_assign (model this) newToken (int (length (model this)) + 1);
          this = this\<lparr>model := m, trie := trie_insert (trie this) newToken (vocab_read m newToken)\<rparr>;
          s = rescan_loop newToken 0 (s\<lparr>bpe := this, newTokenPairs := []\<rparr>)
      in s\<lparr>tokenPairs := newTokenPairs s\<rparr>)"

text \<open>
  \<^verbatim>\<open>for (let i = 0; i < k; i++)\<close> by recursion on the iterations that are left. The result
  is the exception thrown, if any, and the state reached.
\<close>

fun merge_loop :: "nat \<Rightarrow> train_state \<Rightarrow> error option \<times> train_state" where
  "merge_loop 0 s = (None, s)"
| "merge_loop (Suc n) s =
     (if isEmpty (heap s) then (None, s)
      else
        (case extractMax (heap s) of
           Inl e \<Rightarrow> (Some e, s)
         | Inr ((negFreq, best), h) \<Rightarrow>
             (let s = s\<lparr>heap := h\<rparr> in
              if js_neg negFreq = Num 1 then (None, s)
              else
                (case best_replace best of
                   Inl e \<Rightarrow> (Some e, s)
                 | Inr newToken \<Rightarrow> merge_loop n (apply_merge newToken s)))))"

declare merge_loop.simps [simp del]

text \<open>The state before the merge loop: the tokens, the pair counts and the seeded heap.\<close>

definition train_init :: "BPE \<Rightarrow> jsstring \<Rightarrow> train_state" where
  "train_init this corpus =
     (let toks = map (\<lambda>c. JStr [c]) (filter (\<lambda>c. c \<noteq> 0x25) corpus);
          (pf, tps) = count_pairs toks 0 ([], []);
          h = fold (\<lambda>(pair, freq) h. heap_insert h (pfval_neg freq, JStr pair)) (objectEntries pf) []
      in \<lparr>bpe = this, tokens = toks, pairFreqs = pf, tokenPairs = tps, heap = h,
          newTokenPairs = []\<rparr>)"

text \<open>
  The file system \<^verbatim>\<open>train\<close> writes to: the files with their parsed contents, and the
  names that can be written (a name in a missing directory or of a read-only file cannot).
  \<^verbatim>\<open>fs.writeFileSync\<close> replaces the content of a file that can be written and throws
  otherwise; for the empty name it always throws (\<^verbatim>\<open>ENOENT\<close>).
\<close>

record filesystem =
  contents :: files
  writable :: "jsstring \<Rightarrow> bool"

definition writeFileSync :: "filesystem \<Rightarrow> jsstring \<Rightarrow> vocab \<Rightarrow> error + filesystem" where
  "writeFileSync fs name m =
     (if name \<noteq> [] \<and> writable fs name
      then Inr (fs\<lparr>contents := (contents fs)(name \<mapsto> m)\<rparr>)
      else Inl WriteFailed)"

text \<open>
  The argument \<^verbatim>\<open>corpus\<close> is a string or a value of another type. \<^verbatim>\<open>train\<close> returns the
  vocabulary or throws; the engine and the file system are returned as they are left.
  The write comes after the merge loop: when it throws, the engine keeps what the loop
  has added.
\<close>

datatype jsarg = JString jsstring | NotAString

definition train ::
  "filesystem \<Rightarrow> BPE \<Rightarrow> jsarg \<Rightarrow> bool \<Rightarrow> nat \<Rightarrow> (error + vocab) \<times> BPE \<times> filesystem" where
  "train fs this corpus save k =
     (case corpus of
        NotAString \<Rightarrow> (Inl CannotTrainNonstring, this, fs)
      | JString text \<Rightarrow>
          (case merge_loop k (train_init this text) of
             (Some e, s) \<Rightarrow> (Inl e, bpe s, fs)
           | (None, s) \<Rightarrow>
               if save then
                 (case writeFileSync fs (model_name this) (model (bpe s)) of
                    Inl e \<Rightarrow> (Inl e, bpe s, fs)
                  | Inr fs' \<Rightarrow> (Inr (model (bpe s)), bpe s, fs'))
               else (Inr (model (bpe s)), bpe s, fs)))"

section \<open>Calls of train in a row\<close>

text \<open>
  \<open>engine_after\<close> is the engine as a call of \<open>train\<close> without \<^verbatim>\<open>save\<close> leaves it (the file
  system plays no part in such a call), for calls in a row on one engine.
\<close>

definition engine_after :: "BPE \<Rightarrow> jsarg \<Rightarrow> nat \<Rightarrow> BPE" where
  "engine_after this corpus k =
     fst (snd (train \<lparr>contents = Map.empty, writable = (\<lambda>name. False)\<rparr> this corpus False k))"

text \<open>
  \<open>load_and_train\<close> makes an engine for the file \<open>name\<close> of a file system and trains it on a
  text with \<^verbatim>\<open>save\<close>, as the statements at the end of \<^verbatim>\<open>bpe.js\<close> do for \<^verbatim>\<open>'abc.json'\<close>
  with the default \<open>k = 500\<close>. \<open>empty_disk\<close> has no file, and every file can be written.
\<close>

definition empty_disk :: filesystem where
  "empty_disk = \<lparr>contents = Map.empty, writable = (\<lambda>name. True)\<rparr>"

definition load_and_train ::
  "filesystem \<Rightarrow> jsstring \<Rightarrow> jsstring \<Rightarrow> nat \<Rightarrow> (error + vocab) \<times> BPE \<times> filesystem" where
  "load_and_train fs name corpus k =
     train fs (new_BPE (contents fs) name False) (JString corpus) True k"

text \<open>
  The text \<open>x\<close>, U+1F600, \<open>x\<close>, U+1F600, \<open>x\<close> in code units.
\<close>

definition surrogate_text :: jsstring where
  "surrogate_text = [0x78, 0xD83D, 0xDE00, 0x78, 0xD83D, 0xDE00, 0x78]"

section \<open>Code points and the trie walk\<close>

lemma concat_codePoints: "concat (codePoints s) = s"
  by (induction s rule: codePoints.induct) auto

lemma codePoints_nonempty: "c \<in> set (codePoints s) \<Longrightarrow> c \<noteq> []"
  by (induction s rule: codePoints.induct) (auto split: if_splits)

lemma match_chars_result:
  "match_chars node lastMatch cur chars = Some m \<Longrightarrow>
     lastMatch = Some m \<or> (\<exists>k. 0 < k \<and> k \<le> length chars \<and> m = cur @ concat (take k chars))"
proof (induction chars arbitrary: node lastMatch cur)
  case Nil
  then show ?case by simp
next
  case (Cons char rest)
  show ?case
  proof (cases "children node char")
    case None
    with Cons.prems show ?thesis by simp
  next
    case (Some child)
    let ?last = "if isEndOfWord child then Some (cur @ char) else lastMatch"
    from Cons.prems Some have "match_chars child ?last (cur @ char) rest = Some m"
      by simp
    from Cons.IH [OF this] consider
      (last) "?last = Some m"
      | (deeper) k where "0 < k" "k \<le> length rest" "m = (cur @ char) @ concat (take k rest)"
      by blast
    then show ?thesis
    proof cases
      case last
      show ?thesis
      proof (cases "isEndOfWord child")
        case True
        with last have "m = cur @ concat (take 1 (char # rest))" by simp
        then show ?thesis by (intro disjI2 exI [of _ 1]) simp
      next
        case False
        with last show ?thesis by simp
      qed
    next
      case deeper
      then have "m = cur @ concat (take (Suc k) (char # rest))" by simp
      with deeper show ?thesis by (intro disjI2 exI [of _ "Suc k"]) simp
    qed
  qed
qed

lemma concat_take_prefix: "prefix (concat (take k xs)) (concat xs)"
proof -
  have "concat xs = concat (take k xs) @ concat (drop k xs)"
    by (metis append_take_drop_id concat_append)
  then show ?thesis by (metis prefixI)
qed

lemma concat_take_nonempty:
  assumes "0 < k" "k \<le> length xs" "\<forall>x \<in> set xs. x \<noteq> []"
  shows "concat (take k xs) \<noteq> []"
proof -
  from assms(1,2) obtain x rest where "xs = x # rest" by (cases xs) auto
  with assms show ?thesis by (cases k) auto
qed

lemma longestPrefixMatch_result:
  assumes "longestPrefixMatch t w = Some m"
  shows "m \<noteq> [] \<and> prefix m w"
proof -
  from assms obtain k where k: "0 < k" "k \<le> length (codePoints w)"
    and m: "m = concat (take k (codePoints w))"
    unfolding longestPrefixMatch_def by (auto dest: match_chars_result)
  have "prefix m (concat (codePoints w))"
    unfolding m by (rule concat_take_prefix)
  moreover have "m \<noteq> []"
    unfolding m using k codePoints_nonempty by (intro concat_take_nonempty) auto
  ultimately show ?thesis by (simp add: concat_codePoints)
qed

lemma tokenize_step_advance:
  assumes "i < length data" and "tokenize_step t data i toks = (i', toks')"
  shows "i < i' \<and> i' \<le> length data \<and>
    (\<exists>tok. toks' = toks @ [tok] \<and> tok \<noteq> [] \<and> tok = take (i' - i) (drop i data))"
proof (cases "longestPrefixMatch t (drop i data)")
  case None
  with assms have "i' = i + 1" "toks' = toks @ [[data ! i]]"
    by (auto simp: tokenize_step_def)
  moreover from assms(1) have "take 1 (drop i data) = [data ! i]"
    by (simp add: take_Suc_conv_app_nth)
  ultimately show ?thesis using assms(1) by auto
next
  case (Some m)
  show ?thesis
  proof (cases "m = []")
    case True
    with Some assms have "i' = i + 1" "toks' = toks @ [[data ! i]]"
      by (auto simp: tokenize_step_def)
    moreover from assms(1) have "take 1 (drop i data) = [data ! i]"
      by (simp add: take_Suc_conv_app_nth)
    ultimately show ?thesis using assms(1) by auto
  next
    case False
    from longestPrefixMatch_result [OF Some] have p: "prefix m (drop i data)" by simp
    then have len: "length m \<le> length data - i"
      by (metis length_drop prefix_length_le)
    from p have tk: "take (length m) (drop i data) = m"
      by (metis append_eq_conv_conj prefix_def)
    from Some False assms have i': "i' = i + length m" and t': "toks' = toks @ [m]"
      by (auto simp: tokenize_step_def)
    from False have "0 < length m" by simp
    with i' len assms(1) have "i < i'" "i' \<le> length data" "i' - i = length m" by arith+
    with t' False tk show ?thesis by simp
  qed
qed

lemma tokenize_loop_total:
  "i \<le> length data \<Longrightarrow>
     \<exists>ts. tokenize_loop t data i acc = Some (acc @ ts) \<and> concat ts = drop i data"
proof (induction "length data - i" arbitrary: i acc rule: less_induct)
  case less
  show ?case
  proof (cases "i < length data")
    case False
    with less.prems show ?thesis by (subst tokenize_loop.simps) simp
  next
    case True
    obtain i' toks' where step: "tokenize_step t data i acc = (i', toks')"
      by (cases "tokenize_step t data i acc")
    from tokenize_step_advance [OF True step] obtain tok where
      adv: "i < i'" "i' \<le> length data" and tok: "toks' = acc @ [tok]"
      "tok = take (i' - i) (drop i data)" by blast
    from adv have "length data - i' < length data - i" by arith
    from less.hyps [OF this adv(2), of toks'] obtain ts where
      ts: "tokenize_loop t data i' toks' = Some (toks' @ ts)" "concat ts = drop i' data"
      by blast
    have "tokenize_loop t data i acc = tokenize_loop t data i' toks'"
      using True step by (subst tokenize_loop.simps) simp
    with ts(1) tok(1) have run: "tokenize_loop t data i acc = Some (acc @ tok # ts)"
      by simp
    have "drop i data = tok @ drop i' data"
    proof -
      have "drop i' data = drop (i' - i) (drop i data)" using adv(1) by simp
      then show ?thesis unfolding tok(2) by (metis append_take_drop_id)
    qed
    with ts(2) have "concat (tok # ts) = drop i data" by simp
    with run show ?thesis by blast
  qed
qed

section \<open>Claims about tokenize\<close>

text \<open>
  C1. For every input string (the empty one included, which yields the empty token
  sequence) and every trie, \<open>tokenize\<close> returns a token sequence whose concatenation is
  the input, code unit for code unit.
\<close>

theorem tokenize_concat:
  "(\<exists>ts. tokenize this s = Some ts \<and> concat ts = s) \<and> tokenize this [] = Some []"
proof -
  from tokenize_loop_total [of 0 s "trie this" "[]"]
  have "\<exists>ts. tokenize this s = Some ts \<and> concat ts = s"
    by (simp add: tokenize_def)
  moreover have "tokenize this [] = Some []"
    unfolding tokenize_def by (subst tokenize_loop.simps) simp
  ultimately show ?thesis by simp
qed

text \<open>
  C9. \<open>tokenize\<close> returns on every input. \<open>longestPrefixMatch\<close> never returns the empty
  string: it returns \<^verbatim>\<open>null\<close> or a non-empty prefix of its argument. Every iteration of
  the loop at a position inside the input moves the position forward by at least one
  code unit, and never beyond the end of the input.
\<close>

theorem tokenize_terminates:
  "(\<exists>ts. tokenize this s = Some ts) \<and>
   longestPrefixMatch t w \<noteq> Some [] \<and>
   (case longestPrefixMatch t w of None \<Rightarrow> True | Some m \<Rightarrow> m \<noteq> [] \<and> prefix m w) \<and>
   (i < length data \<longrightarrow>
      i < fst (tokenize_step t data i toks) \<and> fst (tokenize_step t data i toks) \<le> length data)"
proof -
  have "\<exists>ts. tokenize this s = Some ts"
    using tokenize_loop_total [of 0 s "trie this" "[]"] by (auto simp: tokenize_def)
  moreover have "longestPrefixMatch t w \<noteq> Some []"
    using longestPrefixMatch_result [of t w "[]"] by blast
  moreover have "case longestPrefixMatch t w of None \<Rightarrow> True | Some m \<Rightarrow> m \<noteq> [] \<and> prefix m w"
    using longestPrefixMatch_result [of t w] by (simp split: option.splits)
  moreover have "i < length data \<longrightarrow>
      i < fst (tokenize_step t data i toks) \<and> fst (tokenize_step t data i toks) \<le> length data"
    using tokenize_step_advance [of i data t toks]
    by (cases "tokenize_step t data i toks") auto
  ultimately show ?thesis by blast
qed

theorem tokenize_terminates_witness:
  "(\<exists>ts. tokenize \<lparr>model_name = [], verbose = False, trained = False, model = [],
       trie = new_TrieNode\<rparr> (utf16 ''ab'') = Some ts) \<and>
   0 < length (utf16 ''ab'') \<and>
   0 < fst (tokenize_step new_TrieNode (utf16 ''ab'') 0 []) \<and>
   fst (tokenize_step new_TrieNode (utf16 ''ab'') 0 []) \<le> length (utf16 ''ab'')"
  using tokenize_terminates [of
      "\<lparr>model_name = [], verbose = False, trained = False, model = [], trie = new_TrieNode\<rparr>"
      "utf16 ''ab''" new_TrieNode "[]" 0 "utf16 ''ab''" "[]"]
  by (simp add: utf16_def)

section \<open>Longest prefix match of an inserted text\<close>

lemma is_word_new: "\<not> is_word new_TrieNode cs"
  by (cases cs) (simp_all add: new_TrieNode_def)

lemma is_word_insert_chars:
  "is_word (insert_chars node w v) cs = (cs = w \<or> is_word node cs)"
proof (induction w arbitrary: node cs)
  case Nil
  then show ?case by (cases cs) auto
next
  case (Cons char rest)
  show ?case
  proof (cases cs)
    case Nil
    then show ?thesis by (simp add: Let_def)
  next
    case (Cons c cs')
    then show ?thesis
      using Cons.IH is_word_new by (auto simp: Let_def split: option.splits)
  qed
qed

lemma is_word_fold_insert:
  "is_word (fold (\<lambda>(word, v) root. trie_insert root word v) entries t) cs =
     (cs \<in> codePoints ` fst ` set entries \<or> is_word t cs)"
  by (induction entries arbitrary: t)
     (auto simp: trie_insert_def is_word_insert_chars split: prod.splits)

lemma is_word_trie_of: "is_word (trie_of entries) cs = (cs \<in> codePoints ` fst ` set entries)"
  by (simp add: trie_of_def is_word_fold_insert is_word_new)

lemma match_chars_no_word:
  "\<forall>k. 0 < k \<and> k \<le> length rest \<longrightarrow> \<not> is_word node (take k rest) \<Longrightarrow>
     match_chars node lastMatch cur rest = lastMatch"
proof (induction rest arbitrary: node lastMatch cur)
  case Nil
  then show ?case by simp
next
  case (Cons char rest)
  show ?case
  proof (cases "children node char")
    case None
    then show ?thesis by simp
  next
    case (Some child)
    from Cons.prems [rule_format, of 1] Some have notend: "\<not> isEndOfWord child" by simp
    have "\<forall>k. 0 < k \<and> k \<le> length rest \<longrightarrow> \<not> is_word child (take k rest)"
    proof (intro allI impI)
      fix k assume "0 < k \<and> k \<le> length rest"
      with Cons.prems [rule_format, of "Suc k"] Some show "\<not> is_word child (take k rest)"
        by simp
    qed
    from Cons.IH [OF this] Some notend show ?thesis by simp
  qed
qed

lemma match_chars_word:
  "is_word node w \<Longrightarrow> w \<noteq> [] \<Longrightarrow>
   \<forall>k. 0 < k \<and> k \<le> length rest \<longrightarrow> \<not> is_word node (w @ take k rest) \<Longrightarrow>
     match_chars node lastMatch cur (w @ rest) = Some (cur @ concat w)"
proof (induction w arbitrary: node lastMatch cur)
  case Nil
  then show ?case by simp
next
  case (Cons char w)
  from Cons.prems(1) obtain child where child: "children node char = Some child"
    and word: "is_word child w" by (auto split: option.splits)
  from Cons.prems(3) child
  have longer: "\<forall>k. 0 < k \<and> k \<le> length rest \<longrightarrow> \<not> is_word child (w @ take k rest)"
    by simp
  show ?case
  proof (cases "w = []")
    case True
    with word have "isEndOfWord child" by simp
    moreover from longer True
    have "match_chars child (Some (cur @ char)) (cur @ char) rest = Some (cur @ char)"
      by (intro match_chars_no_word) simp
    ultimately show ?thesis using child True by simp
  next
    case False
    from Cons.IH [OF word False longer] child show ?thesis by simp
  qed
qed

lemma codePoints_append:
  assumes "w = [] \<or> rest = [] \<or> \<not> (isHighSurrogate (last w) \<and> isLowSurrogate (hd rest))"
  shows "codePoints (w @ rest) = codePoints w @ codePoints rest"
  using assms
proof (induction w rule: codePoints.induct)
  case 1
  then show ?case by simp
next
  case (2 c)
  then show ?case by (cases rest) auto
next
  case (3 c d cs)
  then show ?case by (auto split: if_splits)
qed

text \<open>
  Where the walk does find an inserted text. Let \<open>w\<close> be a non-empty token text inserted
  into the trie, and let the input be \<open>w\<close> followed by \<open>rest\<close>, where no inserted text longer than \<open>w\<close> is a
  prefix of the input. If the code points of the input end where \<open>w\<close> ends (\<open>w\<close> does not
  end in a high surrogate that \<open>rest\<close> completes with a low surrogate), then
  \<open>longestPrefixMatch\<close> returns exactly \<open>w\<close>.
\<close>

lemma longestPrefixMatch_inserted:
  assumes ins: "(w, v) \<in> set entries" and ne: "w \<noteq> []"
    and seg: "rest = [] \<or> \<not> (isHighSurrogate (last w) \<and> isLowSurrogate (hd rest))"
    and longest: "\<forall>(w', v') \<in> set entries. prefix w' (w @ rest) \<longrightarrow> length w' \<le> length w"
  shows "longestPrefixMatch (trie_of entries) (w @ rest) = Some w"
proof -
  let ?cw = "codePoints w" and ?cr = "codePoints rest"
  from seg have cps: "codePoints (w @ rest) = ?cw @ ?cr"
    by (intro codePoints_append) blast
  from ins have word: "is_word (trie_of entries) ?cw"
    unfolding is_word_trie_of by force
  from ne have cne: "?cw \<noteq> []" by (metis concat_codePoints concat.simps(1))
  have "\<forall>k. 0 < k \<and> k \<le> length ?cr \<longrightarrow> \<not> is_word (trie_of entries) (?cw @ take k ?cr)"
  proof (intro allI impI notI)
    fix k assume k: "0 < k \<and> k \<le> length ?cr"
      and "is_word (trie_of entries) (?cw @ take k ?cr)"
    then obtain w' v' where w': "(w', v') \<in> set entries" "codePoints w' = ?cw @ take k ?cr"
      unfolding is_word_trie_of by force
    from w'(2) have eq: "w' = w @ concat (take k ?cr)"
      by (metis concat_codePoints concat_append)
    have "prefix (concat (take k ?cr)) rest"
      using concat_take_prefix [of k ?cr] by (simp add: concat_codePoints)
    with eq have "prefix w' (w @ rest)" by simp
    with longest w'(1) have "length w' \<le> length w" by blast
    moreover have "concat (take k ?cr) \<noteq> []"
      using k codePoints_nonempty by (intro concat_take_nonempty) auto
    ultimately show False using eq by simp
  qed
  from match_chars_word [OF word cne this, of None "[]"]
  show ?thesis by (simp add: longestPrefixMatch_def cps concat_codePoints)
qed

lemma longestPrefixMatch_inserted_example:
  "longestPrefixMatch (trie_of [(utf16 ''aa'', Id 1), (utf16 ''a'', Id 2)])
     (utf16 ''aa'' @ utf16 ''a'') = Some (utf16 ''aa'')"
  using longestPrefixMatch_inserted [of "utf16 ''aa''" "Id 1"
      "[(utf16 ''aa'', Id 1), (utf16 ''a'', Id 2)]" "utf16 ''a''"]
  by (simp add: utf16_def isHighSurrogate_def)

section \<open>The heap invariant is kept\<close>

lemma parent_less: "0 < i \<Longrightarrow> parent i < i"
  unfolding parent_def by arith

lemma parent_child: "0 < i \<Longrightarrow> i = 2 * parent i + 1 \<or> i = 2 * parent i + 2"
  unfolding parent_def by arith

lemma parent_left [simp]: "parent (2 * i + 1) = i"
  unfolding parent_def by simp

lemma parent_right [simp]: "parent (2 * i + 2) = i"
  unfolding parent_def by simp

lemma parent_Suc [simp]: "parent (Suc (2 * i)) = i" "parent (Suc (Suc (2 * i))) = i"
  unfolding parent_def by simp_all

lemma js_ge_prio: "fst a \<noteq> NaN \<Longrightarrow> fst b \<noteq> NaN \<Longrightarrow> js_ge (fst a) (fst b) = (prio b \<le> prio a)"
  by (cases "fst a"; cases "fst b") (simp_all add: prio_def)

lemma js_gt_prio: "fst a \<noteq> NaN \<Longrightarrow> fst b \<noteq> NaN \<Longrightarrow> js_gt (fst a) (fst b) = (prio b < prio a)"
  by (cases "fst a"; cases "fst b") (simp_all add: prio_def)

lemma numeric_nth: "numeric h \<Longrightarrow> i < length h \<Longrightarrow> fst (h ! i) \<noteq> NaN"
  by (simp add: numeric_def list_all_length)

lemma swap_length [simp]: "length (swap h i j) = length h"
  by (simp add: swap_def)

lemma swap_nth:
  "i < length h \<Longrightarrow> j < length h \<Longrightarrow> m < length h \<Longrightarrow>
     swap h i j ! m = (if m = j then h ! i else if m = i then h ! j else h ! m)"
  by (simp add: swap_def nth_list_update)

lemma swap_mset: "i < length h \<Longrightarrow> j < length h \<Longrightarrow> mset (swap h i j) = mset h"
  unfolding swap_def by (simp add: mset_swap)

lemma numeric_mset: "mset h' = mset h \<Longrightarrow> numeric h' = numeric h"
  unfolding numeric_def list_all_iff by (metis set_mset_mset)

lemma heapInvariant_parent:
  assumes "numeric h"
  shows "heapInvariant h = (\<forall>i. 0 < i \<and> i < length h \<longrightarrow> parent_ok h i)"
proof
  assume inv: "heapInvariant h"
  show "\<forall>i. 0 < i \<and> i < length h \<longrightarrow> parent_ok h i"
  proof (intro allI impI)
    fix i assume i: "0 < i \<and> i < length h"
    with parent_less [of i] have p: "parent i < length h" "parent i < i" by simp_all
    from i parent_child [of i] have "i = 2 * parent i + 1 \<or> i = 2 * parent i + 2" by simp
    with inv i p have "js_ge (fst (h ! parent i)) (fst (h ! i))"
      unfolding heapInvariant_def by (metis atLeastLessThan_iff le0)
    with assms i p show "parent_ok h i"
      by (simp add: js_ge_prio numeric_nth parent_ok_def)
  qed
next
  assume par: "\<forall>i. 0 < i \<and> i < length h \<longrightarrow> parent_ok h i"
  show "heapInvariant h"
    unfolding heapInvariant_def
  proof (intro ballI conjI impI)
    fix i assume "i \<in> {0..<length h}" and c: "2 * i + 1 < length h"
    then have i: "i < length h" by simp
    from par [rule_format, of "2 * i + 1"] c have "prio (h ! (2 * i + 1)) \<le> prio (h ! i)"
      by (simp add: parent_ok_def)
    with assms i c show "js_ge (fst (h ! i)) (fst (h ! (2 * i + 1)))"
      by (simp add: js_ge_prio numeric_nth)
  next
    fix i assume "i \<in> {0..<length h}" and c: "2 * i + 2 < length h"
    then have i: "i < length h" by simp
    from par [rule_format, of "2 * i + 2"] c have "prio (h ! (2 * i + 2)) \<le> prio (h ! i)"
      by (simp add: parent_ok_def)
    with assms i c show "js_ge (fst (h ! i)) (fst (h ! (2 * i + 2)))"
      by (simp add: js_ge_prio numeric_nth)
  qed
qed

lemma bubbleUp_unfold:
  "bubbleUp h index =
     (if index > 0 \<and> \<not> js_ge (fst (h ! parent index)) (fst (h ! index))
      then bubbleUp (swap h (parent index) index) (parent index) else h)"
  by (subst bubbleUp.simps) (simp add: Let_def parent_def)

lemma bubbleUp_length_mset:
  "k < length h \<Longrightarrow> length (bubbleUp h k) = length h \<and> mset (bubbleUp h k) = mset h"
proof (induction k arbitrary: h rule: less_induct)
  case (less k)
  show ?case
  proof (cases "k > 0 \<and> \<not> js_ge (fst (h ! parent k)) (fst (h ! k))")
    case False
    then have "bubbleUp h k = h" by (subst bubbleUp_unfold) auto
    then show ?thesis by simp
  next
    case True
    then have pos: "0 < k" by simp
    with less.prems parent_less [of k] have p: "parent k < k" "parent k < length h" by simp_all
    from less.IH [OF p(1), of "swap h (parent k) k"] p
    have "length (bubbleUp (swap h (parent k) k) (parent k)) = length h \<and>
          mset (bubbleUp (swap h (parent k) k) (parent k)) = mset (swap h (parent k) k)"
      by simp
    moreover have "bubbleUp h k = bubbleUp (swap h (parent k) k) (parent k)"
      using True by (subst bubbleUp_unfold) simp
    ultimately show ?thesis using p less.prems by (simp add: swap_mset)
  qed
qed

lemma up_pre_swap:
  assumes pre: "up_pre h k" and k: "0 < k" "k < length h"
    and lt: "prio (h ! parent k) < prio (h ! k)"
  shows "up_pre (swap h (parent k) k) (parent k)"
proof -
  define p where "p = parent k"
  define h' where "h' = swap h p k"
  from k parent_less [of k] have p: "p < k" "p < length h" by (simp_all add: p_def)
  have nth: "h' ! m = (if m = k then h ! p else if m = p then h ! k else h ! m)"
    if "m < length h" for m
    using p k that by (simp add: swap_nth h'_def)
  from pre have a: "prio (h ! i) \<le> prio (h ! parent i)"
    if "0 < i" "i < length h" "i \<noteq> k" for i
    using that unfolding up_pre_def parent_ok_def by blast
  from pre k have b: "prio (h ! c) \<le> prio (h ! p)"
    if "0 < c" "c < length h" "parent c = k" for c
    using that unfolding up_pre_def p_def by blast
  from lt have lt': "prio (h ! p) < prio (h ! k)" by (simp add: p_def)
  have first: "parent_ok h' i" if i: "0 < i" "i < length h" "i \<noteq> p" for i
  proof -
    define q where "q = parent i"
    from i parent_less [of i] have q: "q < i" "q < length h" by (simp_all add: q_def)
    have goal: "parent_ok h' i = (prio (h' ! i) \<le> prio (h' ! q))"
      by (simp add: parent_ok_def q_def)
    show ?thesis
    proof (cases "i = k")
      case True
      then have "q = p" by (simp add: q_def p_def)
      with True lt' p k show ?thesis unfolding goal by (simp add: nth)
    next
      case ik: False
      from a [OF i(1,2) ik] have ai: "prio (h ! i) \<le> prio (h ! q)" by (simp add: q_def)
      consider "q = k" | "q = p" | "q \<noteq> k" "q \<noteq> p" by blast
      then show ?thesis
      proof cases
        case 1
        then have "parent i = k" by (simp add: q_def)
        from b [OF i(1,2) this] 1 i ik q show ?thesis unfolding goal by (simp add: nth)
      next
        case 2
        with ai lt' i ik q p show ?thesis unfolding goal by (simp add: nth)
      next
        case 3
        with ai i ik q show ?thesis unfolding goal by (simp add: nth)
      qed
    qed
  qed
  have second: "prio (h' ! c) \<le> prio (h' ! parent p)"
    if c: "0 < c" "c < length h" "parent c = p" "0 < p" for c
  proof -
    define g where "g = parent p"
    from c(4) p parent_less [of p] have g: "g < p" "g < length h" by (simp_all add: g_def)
    from a [OF c(4) p(2)] p have pg: "prio (h ! p) \<le> prio (h ! g)" by (simp add: g_def)
    from c(1,3) parent_less [of c] have cp: "c \<noteq> p" by auto
    have hg: "h' ! g = h ! g" using g p by (simp add: nth)
    show ?thesis
    proof (cases "c = k")
      case True
      with pg c(2) show ?thesis unfolding g_def [symmetric] hg by (simp add: nth)
    next
      case False
      with a [OF c(1,2)] c(3) have "prio (h ! c) \<le> prio (h ! p)" by simp
      with pg False cp c(2) show ?thesis unfolding g_def [symmetric] hg by (simp add: nth)
    qed
  qed
  show ?thesis
    unfolding up_pre_def p_def [symmetric] h'_def [symmetric]
    using first second by (simp add: h'_def)
qed

lemma bubbleUp_inv:
  "numeric h \<Longrightarrow> k < length h \<Longrightarrow> up_pre h k \<Longrightarrow>
     (\<forall>i. 0 < i \<and> i < length h \<longrightarrow> parent_ok (bubbleUp h k) i)"
proof (induction k arbitrary: h rule: less_induct)
  case (less k)
  show ?case
  proof (cases "k > 0")
    case False
    then have "bubbleUp h k = h" by (subst bubbleUp_unfold) simp
    with less.prems(3) False show ?thesis by (simp add: up_pre_def)
  next
    case pos: True
    with less.prems(2) parent_less [of k] have p: "parent k < length h" "parent k < k"
      by simp_all
    have ge: "js_ge (fst (h ! parent k)) (fst (h ! k)) = (prio (h ! k) \<le> prio (h ! parent k))"
      using less.prems(1,2) p by (simp add: js_ge_prio numeric_nth)
    show ?thesis
    proof (cases "js_ge (fst (h ! parent k)) (fst (h ! k))")
      case True
      then have "bubbleUp h k = h" by (subst bubbleUp_unfold) simp
      moreover from True ge have "parent_ok h k" by (simp add: parent_ok_def)
      ultimately show ?thesis using less.prems(3) unfolding up_pre_def by metis
    next
      case False
      then have eq: "bubbleUp h k = bubbleUp (swap h (parent k) k) (parent k)"
        using pos by (subst bubbleUp_unfold) simp
      from False ge have lt: "prio (h ! parent k) < prio (h ! k)" by simp
      have "numeric (swap h (parent k) k)"
        using less.prems(1,2) p by (simp add: numeric_mset [OF swap_mset])
      moreover have "up_pre (swap h (parent k) k) (parent k)"
        using up_pre_swap [OF less.prems(3) pos less.prems(2) lt] .
      ultimately show ?thesis
        using less.IH [OF p(2), of "swap h (parent k) k"] p eq by simp
    qed
  qed
qed

lemma bubbleDown_unfold:
  "bubbleDown h index =
     (if pick_largest h index = index then h
      else bubbleDown (swap h index (pick_largest h index)) (pick_largest h index))"
  by (subst bubbleDown.simps) (simp add: Let_def)

lemma pick_largest_cases:
  "pick_largest h k = k \<or> pick_largest h k = 2 * k + 1 \<or> pick_largest h k = 2 * k + 2"
  by (simp add: pick_largest_def Let_def)

lemma pick_largest_max:
  assumes "numeric h" "k < length h"
  shows "prio (h ! k) \<le> prio (h ! pick_largest h k)"
    and "2 * k + 1 < length h \<Longrightarrow> prio (h ! (2 * k + 1)) \<le> prio (h ! pick_largest h k)"
    and "2 * k + 2 < length h \<Longrightarrow> prio (h ! (2 * k + 2)) \<le> prio (h ! pick_largest h k)"
    and "pick_largest h k \<noteq> k \<Longrightarrow> prio (h ! k) < prio (h ! pick_largest h k)"
  using assms
  by (auto simp: pick_largest_def Let_def js_gt_prio numeric_nth split: if_splits)

lemma bubbleDown_length_mset:
  "length (bubbleDown h k) = length h \<and> mset (bubbleDown h k) = mset h"
proof (induction "length h - k" arbitrary: h k rule: less_induct)
  case less
  define l where "l = pick_largest h k"
  show ?case
  proof (cases "l = k")
    case True
    then have "bubbleDown h k = h" by (subst bubbleDown_unfold) (simp add: l_def)
    then show ?thesis by simp
  next
    case False
    with pick_largest_bounds [of h k] have l: "k < l" "l < length h" by (simp_all add: l_def)
    then have "length (swap h k l) - l < length h - k" by simp
    from less [OF this]
    have "length (bubbleDown (swap h k l) l) = length h \<and>
          mset (bubbleDown (swap h k l) l) = mset (swap h k l)" by simp
    moreover have "bubbleDown h k = bubbleDown (swap h k l) l"
      using False by (subst bubbleDown_unfold) (simp add: l_def)
    ultimately show ?thesis using l by (simp add: swap_mset)
  qed
qed

lemma down_pre_swap:
  assumes pre: "down_pre h k" and num: "numeric h" and k: "k < length h"
    and l: "pick_largest h k \<noteq> k"
  shows "down_pre (swap h k (pick_largest h k)) (pick_largest h k)"
proof -
  define l where "l = pick_largest h k"
  define h' where "h' = swap h k l"
  from l pick_largest_bounds [of h k] have lb: "k < l" "l < length h" by (simp_all add: l_def)
  from pick_largest_cases [of h k] l have pl: "parent l = k"
    unfolding l_def by auto
  have nth: "h' ! m = (if m = l then h ! k else if m = k then h ! l else h ! m)"
    if "m < length h" for m
    using lb k that by (simp add: swap_nth h'_def)
  from pre have a: "prio (h ! i) \<le> prio (h ! parent i)"
    if "0 < i" "i < length h" "parent i \<noteq> k" for i
    using that unfolding down_pre_def parent_ok_def by blast
  from pre have b: "prio (h ! c) \<le> prio (h ! parent k)"
    if "0 < c" "c < length h" "parent c = k" "0 < k" for c
    using that unfolding down_pre_def by blast
  from pick_largest_max(4) [OF num k l] have lt: "prio (h ! k) < prio (h ! l)"
    by (simp add: l_def)
  have sib: "prio (h ! i) \<le> prio (h ! l)" if i: "0 < i" "i < length h" "parent i = k" for i
  proof -
    from parent_child [OF i(1)] i(3) have "i = 2 * k + 1 \<or> i = 2 * k + 2" by simp
    with pick_largest_max(2,3) [OF num k] i(2) show ?thesis unfolding l_def by blast
  qed
  have first: "parent_ok h' i" if i: "0 < i" "i < length h" "parent i \<noteq> l" for i
  proof -
    define q where "q = parent i"
    from i parent_less [of i] have q: "q < i" "q < length h" "q \<noteq> l" by (simp_all add: q_def)
    have goal: "parent_ok h' i = (prio (h' ! i) \<le> prio (h' ! q))"
      by (simp add: parent_ok_def q_def)
    consider "i = l" | "i = k" | "i \<noteq> l" "i \<noteq> k" by blast
    then show ?thesis
    proof cases
      case 1
      with pl have "q = k" by (simp add: q_def)
      with 1 lt lb k show ?thesis unfolding goal by (simp add: nth)
    next
      case 2
      with q lb have qk: "q \<noteq> k" "q \<noteq> l" by simp_all
      from 2 i(1) lb pl have "prio (h ! l) \<le> prio (h ! parent k)"
        by (intro b) simp_all
      with 2 qk q lb k show ?thesis unfolding goal by (simp add: nth q_def)
    next
      case 3
      show ?thesis
      proof (cases "q = k")
        case True
        then have "parent i = k" by (simp add: q_def)
        from sib [OF i(1,2) this] 3 True i k show ?thesis unfolding goal by (simp add: nth)
      next
        case False
        then have "parent i \<noteq> k" by (simp add: q_def)
        from a [OF i(1,2) this] 3 False q i show ?thesis
          unfolding goal by (simp add: nth q_def)
      qed
    qed
  qed
  have second: "prio (h' ! c) \<le> prio (h' ! parent l)"
    if c: "0 < c" "c < length h" "parent c = l" for c
  proof -
    from c parent_less [of c] have cl: "l < c" by simp
    with lb have ck: "c \<noteq> l" "c \<noteq> k" by simp_all
    from c lb have "parent c \<noteq> k" by simp
    from a [OF c(1,2) this] c(3) have "prio (h ! c) \<le> prio (h ! l)" by simp
    with ck c(2) k lb show ?thesis unfolding pl by (simp add: nth)
  qed
  show ?thesis
    unfolding down_pre_def l_def [symmetric] h'_def [symmetric]
    using first second by (simp add: h'_def)
qed

lemma bubbleDown_inv:
  "numeric h \<Longrightarrow> k < length h \<Longrightarrow> down_pre h k \<Longrightarrow>
     (\<forall>i. 0 < i \<and> i < length h \<longrightarrow> parent_ok (bubbleDown h k) i)"
proof (induction "length h - k" arbitrary: h k rule: less_induct)
  case less
  define l where "l = pick_largest h k"
  show ?case
  proof (cases "l = k")
    case True
    then have eq: "bubbleDown h k = h" by (subst bubbleDown_unfold) (simp add: l_def)
    have "parent_ok h i" if i: "0 < i" "i < length h" for i
    proof (cases "parent i = k")
      case False
      with less.prems(3) i show ?thesis unfolding down_pre_def by blast
    next
      case pk: True
      from parent_child [OF i(1)] pk have "i = 2 * k + 1 \<or> i = 2 * k + 2" by simp
      with pick_largest_max(2,3) [OF less.prems(1,2)] i(2) True pk
      show ?thesis unfolding l_def parent_ok_def by auto
    qed
    with eq show ?thesis by simp
  next
    case False
    with pick_largest_bounds [of h k] have l: "k < l" "l < length h" by (simp_all add: l_def)
    then have m: "length (swap h k l) - l < length h - k" by simp
    have eq: "bubbleDown h k = bubbleDown (swap h k l) l"
      using False by (subst bubbleDown_unfold) (simp add: l_def)
    have "numeric (swap h k l)"
      using less.prems(1,2) l by (simp add: numeric_mset [OF swap_mset])
    moreover have "down_pre (swap h k l) l"
      using down_pre_swap [OF less.prems(3,1,2)] False unfolding l_def by simp
    ultimately show ?thesis
      using less.hyps [OF m, of ] l eq by simp
  qed
qed

lemma root_max:
  assumes "parent_inv h"
  shows "i < length h \<Longrightarrow> prio (h ! i) \<le> prio (h ! 0)"
proof (induction i rule: less_induct)
  case (less i)
  show ?case
  proof (cases "i = 0")
    case True
    then show ?thesis by simp
  next
    case False
    then have i: "0 < i" by simp
    with less.prems parent_less [of i] have p: "parent i < i" "parent i < length h" by simp_all
    from assms i less.prems have "prio (h ! i) \<le> prio (h ! parent i)"
      unfolding parent_inv_def parent_ok_def by blast
    with less.IH [OF p] show ?thesis by simp
  qed
qed

lemma heap_insert_inv:
  assumes num: "numeric h" and x: "fst x \<noteq> NaN" and inv: "heapInvariant h"
  shows "heapInvariant (heap_insert h x) \<and> numeric (heap_insert h x) \<and>
         mset (heap_insert h x) = add_mset x (mset h)"
proof -
  define h1 where "h1 = h @ [x]"
  define k where "k = length h"
  have eq: "heap_insert h x = bubbleUp h1 k"
    by (simp add: heap_insert_def h1_def k_def)
  have k: "k < length h1" by (simp add: h1_def k_def)
  have num1: "numeric h1" using num x by (simp add: numeric_def h1_def)
  from inv num have pinv: "\<forall>i. 0 < i \<and> i < length h \<longrightarrow> parent_ok h i"
    by (simp add: heapInvariant_parent)
  have "up_pre h1 k"
    unfolding up_pre_def
  proof (intro conjI allI impI)
    fix i assume "0 < i \<and> i < length h1 \<and> i \<noteq> k"
    then have i: "0 < i" "i < length h" by (simp_all add: h1_def k_def)
    with parent_less [of i] have "parent i < length h" by simp
    with pinv i show "parent_ok h1 i"
      by (simp add: parent_ok_def h1_def nth_append)
  next
    fix c assume c: "0 < c \<and> c < length h1 \<and> parent c = k \<and> 0 < k"
    with parent_less [of c] have "k < c" by auto
    with c have False by (simp add: h1_def k_def)
    then show "prio (h1 ! c) \<le> prio (h1 ! parent k)" ..
  qed
  from bubbleUp_inv [OF num1 k this] bubbleUp_length_mset [OF k]
  have "\<forall>i. 0 < i \<and> i < length (bubbleUp h1 k) \<longrightarrow> parent_ok (bubbleUp h1 k) i"
    and ms: "mset (bubbleUp h1 k) = mset h1" by simp_all
  moreover from num1 have "numeric (bubbleUp h1 k)" by (simp add: numeric_mset [OF ms])
  ultimately show ?thesis
    unfolding eq by (simp add: heapInvariant_parent h1_def)
qed

lemma extractMax_inv:
  assumes num: "numeric h" and inv: "heapInvariant h" and ex: "extractMax h = Inr (m, h')"
  shows "heapInvariant h' \<and> numeric h' \<and> mset h = add_mset m (mset h') \<and>
         (\<forall>e \<in> set h'. prio e \<le> prio m) \<and> fst m \<noteq> NaN"
proof -
  from ex have ne: "h \<noteq> []" by (auto simp: extractMax_def isEmpty_def split: if_splits)
  then obtain x xs where h: "h = x # xs" by (cases h) auto
  from inv num have pinv: "parent_inv h"
    by (simp add: heapInvariant_parent parent_inv_def)
  have m: "m = x" using ex h by (auto simp: extractMax_def isEmpty_def Let_def split: if_splits)
  have top: "\<forall>e \<in> set h. prio e \<le> prio x"
  proof
    fix e assume "e \<in> set h"
    then obtain i where "i < length h" "h ! i = e" by (auto simp: in_set_conv_nth)
    with root_max [OF pinv, of i] h show "prio e \<le> prio x" by auto
  qed
  from num h have xnum: "fst x \<noteq> NaN" by (simp add: numeric_def)
  show ?thesis
  proof (cases "xs = []")
    case True
    with ex h have "h' = []" by (auto simp: extractMax_def isEmpty_def Let_def)
    with True h m xnum show ?thesis
      by (simp add: heapInvariant_def numeric_def)
  next
    case False
    define h1 where "h1 = (butlast h)[0 := last h]"
    from False h have h1: "h1 = last xs # butlast xs" by (simp add: h1_def)
    from False h ex have h': "h' = bubbleDown h1 0"
      by (auto simp: extractMax_def isEmpty_def Let_def h1_def)
    have "mset h1 = mset (butlast xs @ [last xs])" unfolding h1 by simp
    also have "butlast xs @ [last xs] = xs" using False by simp
    finally have ms1: "mset h1 = mset xs" .
    then have sub: "set h1 = set xs" by (metis set_mset_mset)
    with num h have num1: "numeric h1" by (simp add: numeric_def list_all_iff)
    have len1: "length h1 = length xs" using ms1 by (metis size_mset)
    have pos: "0 < length h1" using False len1 by simp
    have "down_pre h1 0"
      unfolding down_pre_def
    proof (intro conjI allI impI)
      fix i assume a: "0 < i \<and> i < length h1 \<and> parent i \<noteq> 0"
      with parent_less [of i] have i: "0 < i" "i < length xs" "0 < parent i" "parent i < i"
        using len1 by simp_all
      then have ih: "i < length h" "parent i < length h" using h by simp_all
      have lb: "length (butlast h) = length xs" using h by simp
      from pinv i(1) ih(1) have "parent_ok h i" by (simp add: parent_inv_def)
      moreover have "h1 ! i = h ! i" "h1 ! parent i = h ! parent i"
        using i lb by (simp_all add: h1_def nth_butlast)
      ultimately show "parent_ok h1 i" by (simp add: parent_ok_def)
    next
      fix c assume "0 < c \<and> c < length h1 \<and> parent c = 0 \<and> (0::nat) < 0"
      then show "prio (h1 ! c) \<le> prio (h1 ! parent 0)" by simp
    qed
    from bubbleDown_inv [OF num1 pos this] bubbleDown_length_mset [of h1 0]
    have "\<forall>i. 0 < i \<and> i < length h' \<longrightarrow> parent_ok h' i" and ms: "mset h' = mset h1"
      by (simp_all add: h')
    moreover from num1 have num': "numeric h'" by (simp add: numeric_mset [OF ms])
    moreover from ms ms1 have "set h' = set xs" by (metis set_mset_mset)
    ultimately show ?thesis
      using top h m ms ms1 xnum by (simp add: heapInvariant_parent)
  qed
qed

lemma extract_n_sorted:
  "numeric h \<Longrightarrow> heapInvariant h \<Longrightarrow>
     sorted_wrt (\<lambda>a b. js_ge (fst a) (fst b)) (fst (extract_n n h)) \<and>
     heapInvariant (snd (extract_n n h)) \<and> numeric (snd (extract_n n h)) \<and>
     mset (fst (extract_n n h)) + mset (snd (extract_n n h)) = mset h"
proof (induction n arbitrary: h)
  case 0
  then show ?case by simp
next
  case (Suc n)
  show ?case
  proof (cases "extractMax h")
    case (Inl e)
    with Suc.prems show ?thesis by simp
  next
    case (Inr r)
    obtain m h' where r: "r = (m, h')" by (cases r)
    obtain ms h'' where rec: "extract_n n h' = (ms, h'')" by (cases "extract_n n h'")
    from extractMax_inv [OF Suc.prems] Inr r
    have h': "heapInvariant h'" "numeric h'" "mset h = add_mset m (mset h')"
      "\<forall>e \<in> set h'. prio e \<le> prio m" "fst m \<noteq> NaN" by simp_all
    from Suc.IH [OF h'(2,1)] rec
    have ih: "sorted_wrt (\<lambda>a b. js_ge (fst a) (fst b)) ms" "heapInvariant h''" "numeric h''"
      "mset ms + mset h'' = mset h'" by simp_all
    from arg_cong [OF ih(4), of set_mset] have sub: "set ms \<subseteq> set h'" by auto
    have "\<forall>e \<in> set ms. js_ge (fst m) (fst e)"
    proof
      fix e assume "e \<in> set ms"
      with sub have e: "e \<in> set h'" by blast
      with h'(2) have "fst e \<noteq> NaN" by (simp add: numeric_def list_all_iff)
      with h'(4,5) e show "js_ge (fst m) (fst e)" by (simp add: js_ge_prio)
    qed
    with ih h'(3) Inr r rec show ?thesis by simp
  qed
qed

lemma run_ops_inv:
  "list_all numeric_op ops \<Longrightarrow> numeric h \<Longrightarrow> heapInvariant h \<Longrightarrow>
     heapInvariant (run_ops ops h) \<and> numeric (run_ops ops h)"
proof (induction ops h rule: run_ops.induct)
  case (1 h)
  then show ?case by simp
next
  case (2 item ops h)
  with heap_insert_inv [of h item] show ?case by simp
next
  case (3 ops h)
  show ?case
  proof (cases "extractMax h")
    case (Inl e)
    with 3 show ?thesis by simp
  next
    case (Inr r)
    obtain m h' where r: "r = (m, h')" by (cases r)
    with extractMax_inv [OF "3.prems"(2,3)] Inr have "heapInvariant h'" "numeric h'" by simp_all
    with "3.IH"(2) [OF Inr r [symmetric]] "3.prems"(1) Inr r show ?thesis by simp
  qed
qed

text \<open>
  C5. After every sequence of \<^verbatim>\<open>insert\<close> and \<^verbatim>\<open>extractMax\<close> calls on a new heap, with
  numeric priorities, the array satisfies the heap invariant (every node's priority is
  \<^verbatim>\<open>>=\<close> both children's). Repeated \<^verbatim>\<open>extractMax\<close> calls from there return items whose
  priorities never increase, keep the invariant, and lose or invent no item.
\<close>

theorem maxheap_order:
  assumes "list_all numeric_op ops" and "h = run_ops ops []"
  shows "heapInvariant h \<and>
         sorted_wrt (\<lambda>a b. js_ge (fst a) (fst b)) (fst (extract_n n h)) \<and>
         heapInvariant (snd (extract_n n h)) \<and>
         mset (fst (extract_n n h)) + mset (snd (extract_n n h)) = mset h"
proof -
  have "numeric []" "heapInvariant []" by (simp_all add: numeric_def heapInvariant_def)
  from run_ops_inv [OF assms(1) this] assms(2) have "heapInvariant h" "numeric h" by simp_all
  with extract_n_sorted [of h n] show ?thesis by simp
qed

theorem maxheap_order_witness:
  "heapInvariant (run_ops [Insert (Num (- 2), JStr [0x61]), Insert (Num (- 1), JStr [0x62]),
       Insert (Num (- 3), JStr [0x63]), ExtractMax, Insert (Num (- 1), JStr [0x64])] []) \<and>
   sorted_wrt (\<lambda>a b. js_ge (fst a) (fst b))
     (fst (extract_n 3 (run_ops [Insert (Num (- 2), JStr [0x61]), Insert (Num (- 1), JStr [0x62]),
       Insert (Num (- 3), JStr [0x63]), ExtractMax, Insert (Num (- 1), JStr [0x64])] []))) \<and>
   map fst (fst (extract_n 3 (run_ops [Insert (Num (- 2), JStr [0x61]),
       Insert (Num (- 1), JStr [0x62]), Insert (Num (- 3), JStr [0x63]), ExtractMax,
       Insert (Num (- 1), JStr [0x64])] []))) = [Num (- 1), Num (- 2), Num (- 3)]"
proof -
  let ?ops = "[Insert (Num (- 2), JStr [0x61]), Insert (Num (- 1), JStr [0x62]),
       Insert (Num (- 3), JStr [0x63]), ExtractMax, Insert (Num (- 1), JStr [0x64])]"
  have "list_all numeric_op ?ops" by simp
  from maxheap_order [OF this refl, of 3]
  have "heapInvariant (run_ops ?ops [])"
    and "sorted_wrt (\<lambda>a b. js_ge (fst a) (fst b)) (fst (extract_n 3 (run_ops ?ops [])))"
    by blast+
  moreover have "map fst (fst (extract_n 3 (run_ops ?ops []))) = [Num (- 1), Num (- 2), Num (- 3)]"
    by code_simp
  ultimately show ?thesis by blast
qed

section \<open>Unfolding the loops on concrete states\<close>

lemma count_pairs_step:
  "i + 1 < length toks \<Longrightarrow>
     count_pairs toks i (pf, tps) =
       count_pairs toks (i + 1)
         (pf_increment pf (toPropertyKey (js_plus (toks ! i) (toks ! (i + 1)))), tps @ [(i, i + 1)])"
  by (subst count_pairs.simps) (simp add: Let_def)

lemma count_pairs_stop: "\<not> i + 1 < length toks \<Longrightarrow> count_pairs toks i acc = acc"
  by (cases acc) (simp add: count_pairs.simps)

lemma rescan_loop_step:
  "j < length (tokenPairs s) \<Longrightarrow>
     rescan_loop newToken j s = rescan_loop newToken (j + 1) (rescan_step newToken j s)"
  by (subst rescan_loop.simps) simp

lemma rescan_loop_stop: "\<not> j < length (tokenPairs s) \<Longrightarrow> rescan_loop newToken j s = s"
  by (subst rescan_loop.simps) simp

lemma bubbleUp_stop:
  "index = 0 \<or> js_ge (fst (h ! ((index - 1) div 2))) (fst (h ! index)) \<Longrightarrow> bubbleUp h index = h"
  by (subst bubbleUp.simps) (auto simp: Let_def)

lemma bubbleUp_step:
  "0 < index \<Longrightarrow> \<not> js_ge (fst (h ! ((index - 1) div 2))) (fst (h ! index)) \<Longrightarrow>
     bubbleUp h index = bubbleUp (swap h ((index - 1) div 2) index) ((index - 1) div 2)"
  by (subst bubbleUp.simps) (simp add: Let_def)

lemma bubbleDown_stop: "pick_largest h index = index \<Longrightarrow> bubbleDown h index = h"
  by (subst bubbleDown.simps) (simp add: Let_def)

lemma bubbleDown_step:
  "pick_largest h index \<noteq> index \<Longrightarrow>
     bubbleDown h index = bubbleDown (swap h index (pick_largest h index)) (pick_largest h index)"
  by (subst bubbleDown.simps) (simp add: Let_def)

lemma tokenize_loop_step:
  "i < length data \<Longrightarrow>
     tokenize_loop t data i toks =
       tokenize_loop t data (fst (tokenize_step t data i toks)) (snd (tokenize_step t data i toks))"
  by (subst tokenize_loop.simps) (simp add: case_prod_beta)

lemma tokenize_loop_stop: "\<not> i < length data \<Longrightarrow> tokenize_loop t data i toks = Some toks"
  by (subst tokenize_loop.simps) simp

lemmas eval_loops =
  count_pairs_step count_pairs_stop rescan_loop_step rescan_loop_stop
  bubbleUp_stop bubbleUp_step bubbleDown_stop bubbleDown_step

lemmas eval_pairs =
  utf16_def pf_increment_def pf_get_def pf_neg_def objectPrototypeKeys_def objectEntries_def
  arrayIndex_def isDigit_def heap_insert_def swap_def pick_largest_def Let_def

lemmas eval_rescan =
  rescan_step_def push_pair_def js_index_def js_assign_def js_splice1_def

section \<open>Frame properties of the merge loop\<close>

lemma bpe_rescan_step [simp]: "bpe (rescan_step newToken j s) = bpe s"
  by (simp add: rescan_step_def push_pair_def Let_def split: prod.splits)

lemma bpe_rescan_loop [simp]: "bpe (rescan_loop newToken j s) = bpe s"
proof (induction newToken j s rule: rescan_loop.induct)
  case (1 newToken j s)
  then show ?case by (subst rescan_loop.simps) simp
qed

lemma bpe_apply_merge:
  "bpe (apply_merge newToken s) =
     (bpe s)\<lparr>model := vocab_assign (model (bpe s)) newToken (int (length (model (bpe s))) + 1),
             trie := trie_insert (trie (bpe s)) newToken
               (vocab_read (vocab_assign (model (bpe s)) newToken (int (length (model (bpe s))) + 1))
                  newToken)\<rparr>"
  by (simp add: apply_merge_def Let_def)

lemma model_apply_merge:
  "model (bpe (apply_merge newToken s)) =
     vocab_assign (model (bpe s)) newToken (int (length (model (bpe s))) + 1)"
  by (simp add: apply_merge_def Let_def)

lemma extractMax_error: "extractMax h = Inl e \<Longrightarrow> e = HeapIsEmpty"
  by (auto simp: extractMax_def Let_def split: if_splits)

lemma best_replace_error: "best_replace best = Inl e \<Longrightarrow> e = NotAFunction"
  by (auto simp: best_replace_def split: jsval.splits)

lemma merge_loop_error: "fst (merge_loop n s) \<noteq> Some CannotTrainNonstring"
proof (induction n arbitrary: s)
  case 0
  then show ?case by (simp add: merge_loop.simps)
next
  case (Suc n)
  show ?case
  proof (cases "isEmpty (heap s)")
    case True
    then show ?thesis by (simp add: merge_loop.simps)
  next
    case False
    show ?thesis
    proof (cases "extractMax (heap s)")
      case (Inl e)
      with False extractMax_error [OF Inl] show ?thesis by (simp add: merge_loop.simps)
    next
      case (Inr r)
      obtain negFreq best h where r: "r = ((negFreq, best), h)" by (cases r) auto
      show ?thesis
      proof (cases "js_neg negFreq = Num 1")
        case True
        with False Inr r show ?thesis by (simp add: merge_loop.simps)
      next
        case notone: False
        show ?thesis
        proof (cases "best_replace best")
          case (Inl e)
          with False Inr r notone best_replace_error [OF Inl] show ?thesis
            by (simp add: merge_loop.simps)
        next
          case new: (Inr newToken)
          with False Inr r notone Suc.IH [of "apply_merge newToken (s\<lparr>heap := h\<rparr>)"]
          show ?thesis by (simp add: merge_loop.simps)
        qed
      qed
    qed
  qed
qed

text \<open>
  C7. \<open>train\<close> throws \<^verbatim>\<open>Error('Cannot train nonstring')\<close> exactly when \<^verbatim>\<open>corpus\<close> is not a
  string, and then the engine (vocabulary, trie, trained flag) and the files are as
  they were.
\<close>

theorem train_nonstring:
  "(fst (train fs this corpus save k) = Inl CannotTrainNonstring) = (corpus = NotAString) \<and>
   train fs this NotAString save k = (Inl CannotTrainNonstring, this, fs)"
proof -
  have "fst (train fs this (JString str) save k) \<noteq> Inl CannotTrainNonstring" for str
    using merge_loop_error [of k "train_init this str"]
    by (cases "merge_loop k (train_init this str)")
       (auto simp: train_def writeFileSync_def split: option.splits)
  then show ?thesis by (cases corpus) (simp_all add: train_def)
qed

section \<open>Short corpora\<close>

lemma train_init_short:
  assumes "length (filter (\<lambda>c. c \<noteq> 0x25) text) < 2"
  shows "train_init this text =
     \<lparr>bpe = this, tokens = map (\<lambda>c. JStr [c]) (filter (\<lambda>c. c \<noteq> 0x25) text),
      pairFreqs = [], tokenPairs = [], heap = [], newTokenPairs = []\<rparr>"
proof -
  let ?toks = "map (\<lambda>c. JStr [c]) (filter (\<lambda>c. c \<noteq> 0x25) text)"
  from assms have "\<not> 0 + 1 < length ?toks" by simp
  then have "count_pairs ?toks 0 ([], []) = ([], [])"
    by (subst count_pairs.simps) simp
  then show ?thesis by (simp add: train_init_def objectEntries_def)
qed

lemma merge_loop_empty: "heap s = [] \<Longrightarrow> merge_loop k s = (None, s)"
  by (cases k) (simp_all add: merge_loop.simps isEmpty_def)

text \<open>
  C10. If the corpus without its \<^verbatim>\<open>%\<close> characters has fewer than two code units, there
  are no pairs, the heap starts empty and the merge loop changes nothing. \<open>train\<close> without
  \<^verbatim>\<open>save\<close> returns the vocabulary as it was and leaves the engine and the files
  unchanged. With \<^verbatim>\<open>save\<close> it does the same and writes the unchanged vocabulary to the
  file, unless the file cannot be written: then the write throws, with the engine still
  unchanged.
\<close>

theorem train_short_corpus:
  assumes "length (filter (\<lambda>c. c \<noteq> 0x25) text) < 2"
  shows "pairFreqs (train_init this text) = [] \<and> tokenPairs (train_init this text) = [] \<and>
         heap (train_init this text) = [] \<and>
         merge_loop k (train_init this text) = (None, train_init this text) \<and>
         train fs this (JString text) False k = (Inr (model this), this, fs) \<and>
         train fs this (JString text) True k =
           (if model_name this \<noteq> [] \<and> writable fs (model_name this)
            then (Inr (model this), this,
                  fs\<lparr>contents := (contents fs)(model_name this \<mapsto> model this)\<rparr>)
            else (Inl WriteFailed, this, fs))"
proof -
  note init = train_init_short [OF assms, of this]
  have h: "heap (train_init this text) = []" by (simp add: init)
  have loop: "merge_loop k (train_init this text) = (None, train_init this text)"
    by (rule merge_loop_empty [OF h])
  have e: "bpe (train_init this text) = this" by (simp add: init)
  from loop e have "train fs this (JString text) False k = (Inr (model this), this, fs)"
    by (simp add: train_def)
  moreover from loop e have "train fs this (JString text) True k =
           (if model_name this \<noteq> [] \<and> writable fs (model_name this)
            then (Inr (model this), this,
                  fs\<lparr>contents := (contents fs)(model_name this \<mapsto> model this)\<rparr>)
            else (Inl WriteFailed, this, fs))"
    by (simp add: train_def writeFileSync_def)
  ultimately show ?thesis using loop h by (simp add: init)
qed

theorem train_short_corpus_witness:
  "length (filter (\<lambda>c. c \<noteq> 0x25) (utf16 ''%a%'')) < 2 \<and>
   train \<lparr>contents = Map.empty, writable = (\<lambda>name. False)\<rparr>
       (new_BPE Map.empty (utf16 ''abc.json'') False) (JString (utf16 ''%a%'')) False 500 =
     (Inr [], new_BPE Map.empty (utf16 ''abc.json'') False,
      \<lparr>contents = Map.empty, writable = (\<lambda>name. False)\<rparr>) \<and>
   train \<lparr>contents = Map.empty, writable = (\<lambda>name. False)\<rparr>
       (new_BPE Map.empty (utf16 ''abc.json'') False) (JString (utf16 ''%a%'')) True 500 =
     (Inl WriteFailed, new_BPE Map.empty (utf16 ''abc.json'') False,
      \<lparr>contents = Map.empty, writable = (\<lambda>name. False)\<rparr>)"
proof -
  let ?fs = "\<lparr>contents = Map.empty, writable = (\<lambda>name. False)\<rparr>"
  let ?E = "new_BPE Map.empty (utf16 ''abc.json'') False"
  have short: "length (filter (\<lambda>c. c \<noteq> 0x25) (utf16 ''%a%'')) < 2" by (simp add: utf16_def)
  have m: "model ?E = []" by (simp add: new_BPE_def load_vocabulary_def)
  from train_short_corpus [OF short, of ?E 500 ?fs]
  have "train ?fs ?E (JString (utf16 ''%a%'')) False 500 = (Inr [], ?E, ?fs)"
    and "train ?fs ?E (JString (utf16 ''%a%'')) True 500 = (Inl WriteFailed, ?E, ?fs)"
    by (simp_all add: m)
  with short show ?thesis by blast
qed

section \<open>The stop at frequency 1\<close>

lemma train_init_abcd:
  "train_init this (utf16 ''abcd'') =
     \<lparr>bpe = this,
      tokens = [JStr (utf16 ''a''), JStr (utf16 ''b''), JStr (utf16 ''c''), JStr (utf16 ''d'')],
      pairFreqs = [(utf16 ''ab'', Freq 1), (utf16 ''bc'', Freq 1), (utf16 ''cd'', Freq 1)],
      tokenPairs = [(0, 1), (1, 2), (2, 3)],
      heap = [(Num (- 1), JStr (utf16 ''ab'')), (Num (- 1), JStr (utf16 ''bc'')),
              (Num (- 1), JStr (utf16 ''cd''))],
      newTokenPairs = []\<rparr>"
  by (simp add: train_init_def eval_loops eval_pairs)

lemma extractMax_abcd:
  "extractMax [(Num (- 1), JStr (utf16 ''ab'')), (Num (- 1), JStr (utf16 ''bc'')),
               (Num (- 1), JStr (utf16 ''cd''))] =
     Inr ((Num (- 1), JStr (utf16 ''ab'')),
          [(Num (- 1), JStr (utf16 ''cd'')), (Num (- 1), JStr (utf16 ''bc''))])"
  by (simp add: extractMax_def isEmpty_def eval_loops eval_pairs)

text \<open>
  C6. When the popped entry has true frequency 1 (stored priority \<open>-1\<close>), the loop stops
  at once: no merge, only the heap has lost the popped entry. For the corpus \<^verbatim>\<open>"abcd"\<close>
  every pair has frequency 1, so for every \<open>k \<ge> 1\<close> the loop stops after the first pop
  with the engine unchanged. \<open>train\<close> without \<^verbatim>\<open>save\<close> returns the vocabulary unchanged;
  with \<^verbatim>\<open>save\<close> it does the same and writes the unchanged vocabulary to the file, unless
  the file cannot be written: then the write throws, with the engine still unchanged.
\<close>

theorem train_stops_at_frequency_one:
  "(\<not> isEmpty (heap s) \<and> extractMax (heap s) = Inr ((Num (- 1), best), h) \<longrightarrow>
      merge_loop (Suc n) s = (None, s\<lparr>heap := h\<rparr>)) \<and>
   pairFreqs (train_init this (utf16 ''abcd'')) =
     [(utf16 ''ab'', Freq 1), (utf16 ''bc'', Freq 1), (utf16 ''cd'', Freq 1)] \<and>
   merge_loop (Suc n) (train_init this (utf16 ''abcd'')) =
     (None, (train_init this (utf16 ''abcd''))
        \<lparr>heap := [(Num (- 1), JStr (utf16 ''cd'')), (Num (- 1), JStr (utf16 ''bc''))]\<rparr>) \<and>
   train fs this (JString (utf16 ''abcd'')) False (Suc n) = (Inr (model this), this, fs) \<and>
   train fs this (JString (utf16 ''abcd'')) True (Suc n) =
     (if model_name this \<noteq> [] \<and> writable fs (model_name this)
      then (Inr (model this), this,
            fs\<lparr>contents := (contents fs)(model_name this \<mapsto> model this)\<rparr>)
      else (Inl WriteFailed, this, fs))"
proof -
  have general: "\<not> isEmpty (heap s) \<and> extractMax (heap s) = Inr ((Num (- 1), best), h) \<longrightarrow>
      merge_loop (Suc n) s = (None, s\<lparr>heap := h\<rparr>)"
    by (simp add: merge_loop.simps)
  have pop: "extractMax (heap (train_init this (utf16 ''abcd''))) =
     Inr ((Num (- 1), JStr (utf16 ''ab'')),
          [(Num (- 1), JStr (utf16 ''cd'')), (Num (- 1), JStr (utf16 ''bc''))])"
    by (simp add: train_init_abcd extractMax_abcd)
  have ne: "\<not> isEmpty (heap (train_init this (utf16 ''abcd'')))"
    by (simp add: train_init_abcd isEmpty_def)
  from ne pop have loop: "merge_loop (Suc n) (train_init this (utf16 ''abcd'')) =
     (None, (train_init this (utf16 ''abcd''))
        \<lparr>heap := [(Num (- 1), JStr (utf16 ''cd'')), (Num (- 1), JStr (utf16 ''bc''))]\<rparr>)"
    by (simp add: merge_loop.simps)
  have e: "bpe (train_init this (utf16 ''abcd'')) = this" by (simp add: train_init_abcd)
  from loop e
  have "train fs this (JString (utf16 ''abcd'')) False (Suc n) = (Inr (model this), this, fs)"
    by (simp add: train_def)
  moreover from loop e have "train fs this (JString (utf16 ''abcd'')) True (Suc n) =
     (if model_name this \<noteq> [] \<and> writable fs (model_name this)
      then (Inr (model this), this,
            fs\<lparr>contents := (contents fs)(model_name this \<mapsto> model this)\<rparr>)
      else (Inl WriteFailed, this, fs))"
    by (simp add: train_def writeFileSync_def)
  moreover have "pairFreqs (train_init this (utf16 ''abcd'')) =
     [(utf16 ''ab'', Freq 1), (utf16 ''bc'', Freq 1), (utf16 ''cd'', Freq 1)]"
    by (simp add: train_init_abcd)
  ultimately show ?thesis using general loop by blast
qed

theorem train_stops_at_frequency_one_witness:
  "\<not> isEmpty (heap (train_init (new_BPE Map.empty (utf16 ''abc.json'') False) (utf16 ''abcd''))) \<and>
   extractMax (heap (train_init (new_BPE Map.empty (utf16 ''abc.json'') False) (utf16 ''abcd''))) =
     Inr ((Num (- 1), JStr (utf16 ''ab'')),
          [(Num (- 1), JStr (utf16 ''cd'')), (Num (- 1), JStr (utf16 ''bc''))]) \<and>
   merge_loop (Suc 0) (train_init (new_BPE Map.empty (utf16 ''abc.json'') False) (utf16 ''abcd'')) =
     (None, (train_init (new_BPE Map.empty (utf16 ''abc.json'') False) (utf16 ''abcd''))
        \<lparr>heap := [(Num (- 1), JStr (utf16 ''cd'')), (Num (- 1), JStr (utf16 ''bc''))]\<rparr>)"
proof -
  let ?S = "train_init (new_BPE Map.empty (utf16 ''abc.json'') False) (utf16 ''abcd'')"
  have pop: "extractMax (heap ?S) =
     Inr ((Num (- 1), JStr (utf16 ''ab'')),
          [(Num (- 1), JStr (utf16 ''cd'')), (Num (- 1), JStr (utf16 ''bc''))])"
    by (simp add: train_init_abcd extractMax_abcd)
  have ne: "\<not> isEmpty (heap ?S)"
    by (simp add: train_init_abcd isEmpty_def)
  from train_stops_at_frequency_one [of ?S "JStr (utf16 ''ab'')"
      "[(Num (- 1), JStr (utf16 ''cd'')), (Num (- 1), JStr (utf16 ''bc''))]" 0] pop ne
  show ?thesis by blast
qed

section \<open>The corpus aaa\<close>

lemma train_init_aaa:
  "train_init this (utf16 ''aaa'') =
     \<lparr>bpe = this,
      tokens = [JStr (utf16 ''a''), JStr (utf16 ''a''), JStr (utf16 ''a'')],
      pairFreqs = [(utf16 ''aa'', Freq 2)],
      tokenPairs = [(0, 1), (1, 2)],
      heap = [(Num (- 2), JStr (utf16 ''aa''))],
      newTokenPairs = []\<rparr>"
  by (simp add: train_init_def eval_loops eval_pairs)

lemma merge_loop_aaa:
  "merge_loop (Suc 0) (train_init this (utf16 ''aaa'')) =
     (None,
      \<lparr>bpe = this\<lparr>model := vocab_assign (model this) (utf16 ''aa'') (int (length (model this)) + 1),
                   trie := trie_insert (trie this) (utf16 ''aa'')
                     (vocab_read
                        (vocab_assign (model this) (utf16 ''aa'') (int (length (model this)) + 1))
                        (utf16 ''aa''))\<rparr>,
       tokens = [JStr (utf16 ''aa''), JStr (utf16 ''a'')],
       pairFreqs = [(utf16 ''aa'', Freq 2), (utf16 ''aaundefined'', Freq 1)],
       tokenPairs = [(0, 2), (1, 2)],
       heap = [(Num (- 1), JStr (utf16 ''aaundefined''))],
       newTokenPairs = [(0, 2), (1, 2)]\<rparr>)"
  unfolding train_init_aaa
  by (simp add: merge_loop.simps isEmpty_def extractMax_def best_replace_def apply_merge_def
      eval_loops eval_pairs eval_rescan)

text \<open>
  C4. With the corpus \<^verbatim>\<open>"aaa"\<close>, an engine made without a vocabulary file and \<open>k = 1\<close>:
  the tokens start as \<open>[a, a, a]\<close>, the pair \<^verbatim>\<open>"aa"\<close> is counted twice, at the positions
  \<open>(0, 1)\<close> and \<open>(1, 2)\<close>; after the one merge the vocabulary is \<^verbatim>\<open>{"aa": 1}\<close> and the
  tokens are \<open>[aa, a]\<close>. \<open>train\<close> leaves the engine with that vocabulary and returns it,
  unless \<^verbatim>\<open>save\<close> is set and the file cannot be written: then the write throws after
  the merge.
\<close>

theorem train_aaa_scenario:
  "model (new_BPE Map.empty name verb) = [] \<and>
   tokens (train_init (new_BPE Map.empty name verb) (utf16 ''aaa'')) =
     [JStr (utf16 ''a''), JStr (utf16 ''a''), JStr (utf16 ''a'')] \<and>
   pairFreqs (train_init (new_BPE Map.empty name verb) (utf16 ''aaa'')) = [(utf16 ''aa'', Freq 2)] \<and>
   tokenPairs (train_init (new_BPE Map.empty name verb) (utf16 ''aaa'')) = [(0, 1), (1, 2)] \<and>
   fst (merge_loop 1 (train_init (new_BPE Map.empty name verb) (utf16 ''aaa''))) = None \<and>
   model (bpe (snd (merge_loop 1 (train_init (new_BPE Map.empty name verb) (utf16 ''aaa''))))) =
     [(utf16 ''aa'', 1)] \<and>
   tokens (snd (merge_loop 1 (train_init (new_BPE Map.empty name verb) (utf16 ''aaa'')))) =
     [JStr (utf16 ''aa''), JStr (utf16 ''a'')] \<and>
   fst (train fs (new_BPE Map.empty name verb) (JString (utf16 ''aaa'')) False 1) =
     Inr [(utf16 ''aa'', 1)] \<and>
   fst (train fs (new_BPE Map.empty name verb) (JString (utf16 ''aaa'')) True 1) =
     (if name \<noteq> [] \<and> writable fs name then Inr [(utf16 ''aa'', 1)] else Inl WriteFailed) \<and>
   model (fst (snd (train fs (new_BPE Map.empty name verb) (JString (utf16 ''aaa'')) save 1))) =
     [(utf16 ''aa'', 1)]"
proof -
  let ?E = "new_BPE Map.empty name verb"
  have m: "model ?E = []" by (simp add: new_BPE_def load_vocabulary_def)
  have v: "vocab_assign [] (utf16 ''aa'') 1 = [(utf16 ''aa'', 1)]"
    by (simp add: vocab_assign_def utf16_def)
  note loop = merge_loop_aaa [of ?E]
  have n: "model_name ?E = name" by (simp add: new_BPE_def load_vocabulary_def)
  have "fst (train fs ?E (JString (utf16 ''aaa'')) False 1) = Inr [(utf16 ''aa'', 1)]"
    and "fst (train fs ?E (JString (utf16 ''aaa'')) True 1) =
      (if name \<noteq> [] \<and> writable fs name then Inr [(utf16 ''aa'', 1)] else Inl WriteFailed)"
    and "model (fst (snd (train fs ?E (JString (utf16 ''aaa'')) save 1))) = [(utf16 ''aa'', 1)]"
    by (simp_all add: train_def writeFileSync_def loop m n v)
  moreover have "fst (merge_loop 1 (train_init ?E (utf16 ''aaa''))) = None"
    and "model (bpe (snd (merge_loop 1 (train_init ?E (utf16 ''aaa''))))) = [(utf16 ''aa'', 1)]"
    and "tokens (snd (merge_loop 1 (train_init ?E (utf16 ''aaa'')))) =
      [JStr (utf16 ''aa''), JStr (utf16 ''a'')]"
    by (simp_all add: loop m v)
  ultimately show ?thesis by (simp add: train_init_aaa m)
qed

text \<open>
  C2 on the code. The corpus \<^verbatim>\<open>"aaa"\<close>, one merge: the pair at \<open>(0, 1)\<close> is fused, the
  tokens become \<open>[aa, a]\<close>, and the right neighbour of the fused token is \<open>a\<close>. The pair
  counted and pushed for it is read at the position recorded before the \<^verbatim>\<open>splice\<close>,
  which is now beyond the end of the array: its text is \<^verbatim>\<open>"aaundefined"\<close>, and the pair
  \<^verbatim>\<open>"aaa"\<close> of the fused token with its right neighbour is not counted.
\<close>

theorem rescan_reads_recorded_positions:
  "tokens (snd (merge_loop 1 (train_init this (utf16 ''aaa'')))) =
     [JStr (utf16 ''aa''), JStr (utf16 ''a'')] \<and>
   pairFreqs (snd (merge_loop 1 (train_init this (utf16 ''aaa'')))) =
     [(utf16 ''aa'', Freq 2), (utf16 ''aaundefined'', Freq 1)] \<and>
   heap (snd (merge_loop 1 (train_init this (utf16 ''aaa'')))) =
     [(Num (- 1), JStr (utf16 ''aaundefined''))] \<and>
   pf_get (pairFreqs (snd (merge_loop 1 (train_init this (utf16 ''aaa''))))) (utf16 ''aaa'') = None"
  by (simp add: merge_loop_aaa) (simp add: pf_get_def utf16_def objectPrototypeKeys_def)

section \<open>A text merged again\<close>

lemma bpe_train_init [simp]: "bpe (train_init this str) = this"
  by (simp add: train_init_def Let_def split: prod.splits)


lemma train_init_bbb:
  "train_init this (utf16 ''bbb'') =
     \<lparr>bpe = this,
      tokens = [JStr (utf16 ''b''), JStr (utf16 ''b''), JStr (utf16 ''b'')],
      pairFreqs = [(utf16 ''bb'', Freq 2)],
      tokenPairs = [(0, 1), (1, 2)],
      heap = [(Num (- 2), JStr (utf16 ''bb''))],
      newTokenPairs = []\<rparr>"
  by (simp add: train_init_def eval_loops eval_pairs)

lemma merge_loop_bbb:
  "model (bpe (snd (merge_loop (Suc 0) (train_init this (utf16 ''bbb''))))) =
     vocab_assign (model this) (utf16 ''bb'') (int (length (model this)) + 1) \<and>
   fst (merge_loop (Suc 0) (train_init this (utf16 ''bbb''))) = None"
  unfolding train_init_bbb
  by (simp add: merge_loop.simps isEmpty_def extractMax_def best_replace_def apply_merge_def
      eval_loops eval_pairs eval_rescan)

lemma model_after_aaa:
  "model (engine_after this (JString (utf16 ''aaa'')) (Suc 0)) =
     vocab_assign (model this) (utf16 ''aa'') (int (length (model this)) + 1)"
  by (simp add: engine_after_def train_def merge_loop_aaa)

lemma model_after_bbb:
  "model (engine_after this (JString (utf16 ''bbb'')) (Suc 0)) =
     vocab_assign (model this) (utf16 ''bb'') (int (length (model this)) + 1)"
  using merge_loop_bbb [of this]
  by (cases "merge_loop (Suc 0) (train_init this (utf16 ''bbb''))")
     (simp add: engine_after_def train_def)

lemma merge_loop_aaa_any:
  "fst (merge_loop (Suc n) (train_init this (utf16 ''aaa''))) = None \<and>
   model (bpe (snd (merge_loop (Suc n) (train_init this (utf16 ''aaa''))))) =
     vocab_assign (model this) (utf16 ''aa'') (int (length (model this)) + 1)"
  unfolding train_init_aaa
  by (cases n)
     (simp_all add: merge_loop.simps isEmpty_def extractMax_def best_replace_def apply_merge_def
        eval_loops eval_pairs eval_rescan)

lemma merge_loop_bbb_any:
  "fst (merge_loop (Suc n) (train_init this (utf16 ''bbb''))) = None \<and>
   model (bpe (snd (merge_loop (Suc n) (train_init this (utf16 ''bbb''))))) =
     vocab_assign (model this) (utf16 ''bb'') (int (length (model this)) + 1)"
  unfolding train_init_bbb
  by (cases n)
     (simp_all add: merge_loop.simps isEmpty_def extractMax_def best_replace_def apply_merge_def
        eval_loops eval_pairs eval_rescan)

lemma train_saved:
  assumes "fst (merge_loop k (train_init this str)) = None"
    and "model_name this \<noteq> [] \<and> writable fs (model_name this)"
  shows "fst (train fs this (JString str) True k) =
           Inr (model (bpe (snd (merge_loop k (train_init this str))))) \<and>
         snd (snd (train fs this (JString str) True k)) =
           fs\<lparr>contents := (contents fs)(model_name this \<mapsto>
                model (bpe (snd (merge_loop k (train_init this str)))))\<rparr>"
  using assms
  by (cases "merge_loop k (train_init this str)") (simp add: train_def writeFileSync_def)

lemma model_new_BPE:
  "model (new_BPE c name verb) = (case c name of Some v \<Rightarrow> v | None \<Rightarrow> [])"
  "model_name (new_BPE c name verb) = name"
  by (simp_all add: new_BPE_def load_vocabulary_def split: option.splits)

lemma load_and_train_aaa:
  assumes "writable fs (utf16 ''abc.json'')"
  shows "fst (load_and_train fs (utf16 ''abc.json'') (utf16 ''aaa'') 500) =
           Inr (vocab_assign (case contents fs (utf16 ''abc.json'') of Some v \<Rightarrow> v | None \<Rightarrow> [])
                 (utf16 ''aa'')
                 (int (length (case contents fs (utf16 ''abc.json'') of Some v \<Rightarrow> v | None \<Rightarrow> [])) + 1)) \<and>
         snd (snd (load_and_train fs (utf16 ''abc.json'') (utf16 ''aaa'') 500)) =
           fs\<lparr>contents := (contents fs)(utf16 ''abc.json'' \<mapsto>
             vocab_assign (case contents fs (utf16 ''abc.json'') of Some v \<Rightarrow> v | None \<Rightarrow> [])
                 (utf16 ''aa'')
                 (int (length (case contents fs (utf16 ''abc.json'') of Some v \<Rightarrow> v | None \<Rightarrow> [])) + 1))\<rparr>"
proof -
  let ?E = "new_BPE (contents fs) (utf16 ''abc.json'') False"
  have k: "(500::nat) = Suc 499" by simp
  from merge_loop_aaa_any [of 499 ?E]
  have l: "fst (merge_loop 500 (train_init ?E (utf16 ''aaa''))) = None"
    and m: "model (bpe (snd (merge_loop 500 (train_init ?E (utf16 ''aaa''))))) =
     vocab_assign (model ?E) (utf16 ''aa'') (int (length (model ?E)) + 1)"
    unfolding k by simp_all
  from assms have w: "model_name ?E \<noteq> [] \<and> writable fs (model_name ?E)"
    by (simp add: model_new_BPE utf16_def)
  from train_saved [OF l w] show ?thesis
    unfolding load_and_train_def m model_new_BPE by simp
qed

lemma load_and_train_bbb:
  assumes "writable fs (utf16 ''abc.json'')"
  shows "fst (load_and_train fs (utf16 ''abc.json'') (utf16 ''bbb'') 500) =
           Inr (vocab_assign (case contents fs (utf16 ''abc.json'') of Some v \<Rightarrow> v | None \<Rightarrow> [])
                 (utf16 ''bb'')
                 (int (length (case contents fs (utf16 ''abc.json'') of Some v \<Rightarrow> v | None \<Rightarrow> [])) + 1))"
proof -
  let ?E = "new_BPE (contents fs) (utf16 ''abc.json'') False"
  have k: "(500::nat) = Suc 499" by simp
  from merge_loop_bbb_any [of 499 ?E]
  have l: "fst (merge_loop 500 (train_init ?E (utf16 ''bbb''))) = None"
    and m: "model (bpe (snd (merge_loop 500 (train_init ?E (utf16 ''bbb''))))) =
     vocab_assign (model ?E) (utf16 ''bb'') (int (length (model ?E)) + 1)"
    unfolding k by simp_all
  from assms have w: "model_name ?E \<noteq> [] \<and> writable fs (model_name ?E)"
    by (simp add: model_new_BPE utf16_def)
  from train_saved [OF l w] show ?thesis
    unfolding load_and_train_def m model_new_BPE by simp
qed

text \<open>
  C3 on the code. The statements at the end of \<^verbatim>\<open>bpe.js\<close> are run three times on a disk
  that starts without \<^verbatim>\<open>abc.json\<close>: on the texts \<^verbatim>\<open>"aaa"\<close>, \<^verbatim>\<open>"aaa"\<close> and \<^verbatim>\<open>"bbb"\<close>. The
  first run gives \<^verbatim>\<open>"aa"\<close> the id 1 and saves it; the second run loads it, merges \<^verbatim>\<open>"aa"\<close>
  again and changes its id to 2; the third run gives \<^verbatim>\<open>"bb"\<close> the id 2 as well. The same
  happens when one engine is trained three times on these texts with \<open>k = 1\<close>.
\<close>

theorem retraining_changes_ids:
  "fst (load_and_train empty_disk (utf16 ''abc.json'') (utf16 ''aaa'') 500) =
     Inr [(utf16 ''aa'', 1)] \<and>
   fst (load_and_train
         (snd (snd (load_and_train empty_disk (utf16 ''abc.json'') (utf16 ''aaa'') 500)))
         (utf16 ''abc.json'') (utf16 ''aaa'') 500) =
     Inr [(utf16 ''aa'', 2)] \<and>
   fst (load_and_train
         (snd (snd (load_and_train
           (snd (snd (load_and_train empty_disk (utf16 ''abc.json'') (utf16 ''aaa'') 500)))
           (utf16 ''abc.json'') (utf16 ''aaa'') 500)))
         (utf16 ''abc.json'') (utf16 ''bbb'') 500) =
     Inr [(utf16 ''aa'', 2), (utf16 ''bb'', 2)] \<and>
   model (engine_after (new_BPE Map.empty (utf16 ''abc.json'') False)
      (JString (utf16 ''aaa'')) 1) = [(utf16 ''aa'', 1)] \<and>
   model (engine_after (engine_after (new_BPE Map.empty (utf16 ''abc.json'') False)
      (JString (utf16 ''aaa'')) 1) (JString (utf16 ''aaa'')) 1) = [(utf16 ''aa'', 2)] \<and>
   model (engine_after (engine_after (engine_after (new_BPE Map.empty (utf16 ''abc.json'') False)
      (JString (utf16 ''aaa'')) 1) (JString (utf16 ''aaa'')) 1) (JString (utf16 ''bbb'')) 1) =
     [(utf16 ''aa'', 2), (utf16 ''bb'', 2)]"
proof -
  let ?J = "utf16 ''abc.json''"
  let ?d1 = "\<lparr>contents = [?J \<mapsto> [(utf16 ''aa'', 1)]], writable = (\<lambda>name. True)\<rparr>"
  let ?d2 = "\<lparr>contents = [?J \<mapsto> [(utf16 ''aa'', 2)]], writable = (\<lambda>name. True)\<rparr>"
  have v1: "vocab_assign [] (utf16 ''aa'') 1 = [(utf16 ''aa'', 1)]"
    and v2: "vocab_assign [(utf16 ''aa'', 1)] (utf16 ''aa'') 2 = [(utf16 ''aa'', 2)]"
    and v3: "vocab_assign [(utf16 ''aa'', 2)] (utf16 ''bb'') 2 = [(utf16 ''aa'', 2), (utf16 ''bb'', 2)]"
    by (simp_all add: vocab_assign_def utf16_def)
  have r1: "fst (load_and_train empty_disk ?J (utf16 ''aaa'') 500) = Inr [(utf16 ''aa'', 1)]"
    and f1: "snd (snd (load_and_train empty_disk ?J (utf16 ''aaa'') 500)) = ?d1"
    using load_and_train_aaa [of empty_disk] by (simp_all add: empty_disk_def v1)
  have r2: "fst (load_and_train ?d1 ?J (utf16 ''aaa'') 500) = Inr [(utf16 ''aa'', 2)]"
    and f2: "snd (snd (load_and_train ?d1 ?J (utf16 ''aaa'') 500)) = ?d2"
    using load_and_train_aaa [of ?d1] by (simp_all add: v2)
  have r3: "fst (load_and_train ?d2 ?J (utf16 ''bbb'') 500) =
      Inr [(utf16 ''aa'', 2), (utf16 ''bb'', 2)]"
    using load_and_train_bbb [of ?d2] by (simp add: v3)
  have e: "model (engine_after (new_BPE Map.empty ?J False) (JString (utf16 ''aaa'')) 1) =
        [(utf16 ''aa'', 1)]"
    "model (engine_after (engine_after (new_BPE Map.empty ?J False)
        (JString (utf16 ''aaa'')) 1) (JString (utf16 ''aaa'')) 1) = [(utf16 ''aa'', 2)]"
    "model (engine_after (engine_after (engine_after (new_BPE Map.empty ?J False)
        (JString (utf16 ''aaa'')) 1) (JString (utf16 ''aaa'')) 1) (JString (utf16 ''bbb'')) 1) =
       [(utf16 ''aa'', 2), (utf16 ''bb'', 2)]"
    by (simp_all add: model_after_aaa model_after_bbb)
       (simp_all add: vocab_assign_def utf16_def new_BPE_def load_vocabulary_def)
  show ?thesis unfolding f1 f2 using r1 r2 r3 e by blast
qed

section \<open>A learnt token that the trie does not match\<close>

text \<open>
  The rescan of the text \<open>x\<close>, U+1F600, \<open>x\<close>, U+1F600, \<open>x\<close> for the new token \<open>x\<close>, D83D is
  evaluated one step of the loop at a time. A step that fuses is the splice followed by the
  pushes of the two neighbour pairs.
\<close>

lemma rescan_step_fuse:
  assumes "tokenPairs s ! j = (left, right)"
    and "js_plus (js_index (tokens s) left) (js_index (tokens s) right) = JStr newToken"
    and "s1 = s\<lparr>tokens := js_splice1 (js_assign (tokens s) left (JStr newToken)) right\<rparr>"
    and "s2 = (if j > 0 then
                 push_pair
                   (js_plus (js_index (tokens s1) (fst (tokenPairs s1 ! (j - 1))))
                            (js_index (tokens s1) left))
                   (fst (tokenPairs s1 ! (j - 1)), left) s1
               else s1)"
    and "s3 = (if j + 1 < length (tokenPairs s2) then
                 push_pair
                   (js_plus (js_index (tokens s2) left)
                            (js_index (tokens s2) (snd (tokenPairs s2 ! (j + 1)))))
                   (left, snd (tokenPairs s2 ! (j + 1))) s2
               else s2)"
  shows "rescan_step newToken j s = s3"
  using assms by (simp add: rescan_step_def Let_def)

lemma push_pair_eval:
  assumes "pf = pf_increment (pairFreqs s) key"
    and "p = pf_neg pf key"
    and "h = heap_insert (heap s) (p, JStr key)"
  shows "push_pair (JStr key) idx s =
           s\<lparr>pairFreqs := pf, heap := h, newTokenPairs := newTokenPairs s @ [idx]\<rparr>"
  using assms by (simp add: push_pair_def Let_def)

lemma pf_increment_surrogate_1:
  "pf_increment [([0x78, 0xD83D], Freq 2), ([0xD83D, 0xDE00], Freq 2), ([0xDE00, 0x78], Freq 2),
                   ([0x78, 0xD83D, 0x78], Freq 1)] [0xDE00, 0x78, 0xD83D] =
    [([0x78, 0xD83D], Freq 2), ([0xD83D, 0xDE00], Freq 2), ([0xDE00, 0x78], Freq 2),
                   ([0x78, 0xD83D, 0x78], Freq 1), ([0xDE00, 0x78, 0xD83D], Freq 1)]"
  by (simp add: pf_increment_def pf_get_def objectPrototypeKeys_def utf16_def)

lemma pf_increment_surrogate_2:
  "pf_increment [([0x78, 0xD83D], Freq 2), ([0xD83D, 0xDE00], Freq 2), ([0xDE00, 0x78], Freq 2),
                   ([0x78, 0xD83D, 0x78], Freq 1), ([0xDE00, 0x78, 0xD83D], Freq 1)] [0x78, 0xD83D, 0x78] =
    [([0x78, 0xD83D], Freq 2), ([0xD83D, 0xDE00], Freq 2), ([0xDE00, 0x78], Freq 2),
                   ([0x78, 0xD83D, 0x78], Freq 2), ([0xDE00, 0x78, 0xD83D], Freq 1)]"
  by (simp add: pf_increment_def pf_get_def objectPrototypeKeys_def utf16_def)

lemma heap_insert_surrogate_1:
  "heap_insert [(Num (- 1), JStr [0x78, 0xD83D, 0x78]), (Num (- 2), JStr [0xD83D, 0xDE00]),
              (Num (- 2), JStr [0xDE00, 0x78])] (Num (- 1), JStr [0xDE00, 0x78, 0xD83D]) =
   [(Num (- 1), JStr [0x78, 0xD83D, 0x78]), (Num (- 1), JStr [0xDE00, 0x78, 0xD83D]),
              (Num (- 2), JStr [0xDE00, 0x78]), (Num (- 2), JStr [0xD83D, 0xDE00])]"
  by (simp add: heap_insert_def swap_def bubbleUp_stop bubbleUp_step)

lemma heap_insert_surrogate_2:
  "heap_insert [(Num (- 1), JStr [0x78, 0xD83D, 0x78]), (Num (- 1), JStr [0xDE00, 0x78, 0xD83D]),
              (Num (- 2), JStr [0xDE00, 0x78]), (Num (- 2), JStr [0xD83D, 0xDE00])]
      (Num (- 2), JStr [0x78, 0xD83D, 0x78]) =
   [(Num (- 1), JStr [0x78, 0xD83D, 0x78]), (Num (- 1), JStr [0xDE00, 0x78, 0xD83D]),
              (Num (- 2), JStr [0xDE00, 0x78]), (Num (- 2), JStr [0xD83D, 0xDE00]),
              (Num (- 2), JStr [0x78, 0xD83D, 0x78])]"
  by (simp add: heap_insert_def swap_def bubbleUp_stop bubbleUp_step)

lemma pf_increment_surrogate_0:
  "pf_increment [([0x78, 0xD83D], Freq 2), ([0xD83D, 0xDE00], Freq 2), ([0xDE00, 0x78], Freq 2)]
      [0x78, 0xD83D, 0x78] =
    [([0x78, 0xD83D], Freq 2), ([0xD83D, 0xDE00], Freq 2), ([0xDE00, 0x78], Freq 2),
     ([0x78, 0xD83D, 0x78], Freq 1)]"
  by (simp add: pf_increment_def pf_get_def objectPrototypeKeys_def utf16_def)

lemma heap_insert_surrogate_0:
  "heap_insert [(Num (- 2), JStr [0xDE00, 0x78]), (Num (- 2), JStr [0xD83D, 0xDE00])]
      (Num (- 1), JStr [0x78, 0xD83D, 0x78]) =
   [(Num (- 1), JStr [0x78, 0xD83D, 0x78]), (Num (- 2), JStr [0xD83D, 0xDE00]),
    (Num (- 2), JStr [0xDE00, 0x78])]"
  by (simp add: heap_insert_def swap_def bubbleUp_stop bubbleUp_step)

lemma rescan_surrogate_0:
  "rescan_step [0x78, 0xD83D] 0
     \<lparr>bpe = b,
      tokens = [JStr [0x78], JStr [0xD83D], JStr [0xDE00], JStr [0x78], JStr [0xD83D],
                JStr [0xDE00], JStr [0x78]],
      pairFreqs = [([0x78, 0xD83D], Freq 2), ([0xD83D, 0xDE00], Freq 2), ([0xDE00, 0x78], Freq 2)],
      tokenPairs = [(0, 1), (1, 2), (2, 3), (3, 4), (4, 5), (5, 6)],
      heap = [(Num (- 2), JStr [0xDE00, 0x78]), (Num (- 2), JStr [0xD83D, 0xDE00])],
      newTokenPairs = []\<rparr> =
     \<lparr>bpe = b,
      tokens = [JStr [0x78, 0xD83D], JStr [0xDE00], JStr [0x78], JStr [0xD83D],
                JStr [0xDE00], JStr [0x78]],
      pairFreqs = [([0x78, 0xD83D], Freq 2), ([0xD83D, 0xDE00], Freq 2), ([0xDE00, 0x78], Freq 2),
                   ([0x78, 0xD83D, 0x78], Freq 1)],
      tokenPairs = [(0, 1), (1, 2), (2, 3), (3, 4), (4, 5), (5, 6)],
      heap = [(Num (- 1), JStr [0x78, 0xD83D, 0x78]), (Num (- 2), JStr [0xD83D, 0xDE00]),
              (Num (- 2), JStr [0xDE00, 0x78])],
      newTokenPairs = [(0, 2)]\<rparr>"
proof (rule rescan_step_fuse [where left = 0 and right = 1])
  let ?tp = "[(0, 1), (1, 2), (2, 3), (3, 4), (4, 5), (5, 6)]"
  let ?s = "\<lparr>bpe = b,
      tokens = [JStr [0x78], JStr [0xD83D], JStr [0xDE00], JStr [0x78], JStr [0xD83D],
                JStr [0xDE00], JStr [0x78]],
      pairFreqs = [([0x78, 0xD83D], Freq 2), ([0xD83D, 0xDE00], Freq 2), ([0xDE00, 0x78], Freq 2)],
      tokenPairs = ?tp,
      heap = [(Num (- 2), JStr [0xDE00, 0x78]), (Num (- 2), JStr [0xD83D, 0xDE00])],
      newTokenPairs = []\<rparr>"
  let ?s1 = "\<lparr>bpe = b,
      tokens = [JStr [0x78, 0xD83D], JStr [0xDE00], JStr [0x78], JStr [0xD83D],
                JStr [0xDE00], JStr [0x78]],
      pairFreqs = [([0x78, 0xD83D], Freq 2), ([0xD83D, 0xDE00], Freq 2), ([0xDE00, 0x78], Freq 2)],
      tokenPairs = ?tp,
      heap = [(Num (- 2), JStr [0xDE00, 0x78]), (Num (- 2), JStr [0xD83D, 0xDE00])],
      newTokenPairs = []\<rparr>"
  let ?s3 = "\<lparr>bpe = b,
      tokens = [JStr [0x78, 0xD83D], JStr [0xDE00], JStr [0x78], JStr [0xD83D],
                JStr [0xDE00], JStr [0x78]],
      pairFreqs = [([0x78, 0xD83D], Freq 2), ([0xD83D, 0xDE00], Freq 2), ([0xDE00, 0x78], Freq 2),
                   ([0x78, 0xD83D, 0x78], Freq 1)],
      tokenPairs = ?tp,
      heap = [(Num (- 1), JStr [0x78, 0xD83D, 0x78]), (Num (- 2), JStr [0xD83D, 0xDE00]),
              (Num (- 2), JStr [0xDE00, 0x78])],
      newTokenPairs = [(0, 2)]\<rparr>"
  show "tokenPairs ?s ! 0 = (0, 1)" by simp
  show "js_plus (js_index (tokens ?s) 0) (js_index (tokens ?s) 1) = JStr [0x78, 0xD83D]"
    by (simp add: js_index_def)
  show "?s1 = ?s\<lparr>tokens := js_splice1 (js_assign (tokens ?s) 0 (JStr [0x78, 0xD83D])) 1\<rparr>"
    by (simp add: js_assign_def js_splice1_def)
  show "?s1 = (if 0 > (0::nat) then
       push_pair
         (js_plus (js_index (tokens ?s1) (fst (tokenPairs ?s1 ! (0 - 1)))) (js_index (tokens ?s1) 0))
         (fst (tokenPairs ?s1 ! (0 - 1)), 0) ?s1
     else ?s1)"
    by simp
  have "push_pair (JStr [0x78, 0xD83D, 0x78]) (0, 2) ?s1 = ?s3"
    by (rule trans [OF push_pair_eval [OF refl refl refl]])
       (simp add: pf_increment_surrogate_0 pf_neg_def pf_get_def heap_insert_surrogate_0)
  then show "?s3 =
     (if 0 + 1 < length (tokenPairs ?s1) then
       push_pair
         (js_plus (js_index (tokens ?s1) 0) (js_index (tokens ?s1) (snd (tokenPairs ?s1 ! (0 + 1)))))
         (0, snd (tokenPairs ?s1 ! (0 + 1))) ?s1
     else ?s1)"
    by (simp add: js_index_def)
qed

lemma rescan_surrogate_1:
  "rescan_step [0x78, 0xD83D] 1
     \<lparr>bpe = b,
      tokens = [JStr [0x78, 0xD83D], JStr [0xDE00], JStr [0x78], JStr [0xD83D],
                JStr [0xDE00], JStr [0x78]],
      pairFreqs = pf,
      tokenPairs = [(0, 1), (1, 2), (2, 3), (3, 4), (4, 5), (5, 6)],
      heap = h,
      newTokenPairs = [(0, 2)]\<rparr> =
     \<lparr>bpe = b,
      tokens = [JStr [0x78, 0xD83D], JStr [0xDE00], JStr [0x78], JStr [0xD83D],
                JStr [0xDE00], JStr [0x78]],
      pairFreqs = pf,
      tokenPairs = [(0, 1), (1, 2), (2, 3), (3, 4), (4, 5), (5, 6)],
      heap = h,
      newTokenPairs = [(0, 2), (1, 2)]\<rparr>"
  by (simp add: rescan_step_def js_index_def)

lemma rescan_surrogate_2:
  "rescan_step [0x78, 0xD83D] 2
     \<lparr>bpe = b,
      tokens = [JStr [0x78, 0xD83D], JStr [0xDE00], JStr [0x78], JStr [0xD83D],
                JStr [0xDE00], JStr [0x78]],
      pairFreqs = [([0x78, 0xD83D], Freq 2), ([0xD83D, 0xDE00], Freq 2), ([0xDE00, 0x78], Freq 2),
                   ([0x78, 0xD83D, 0x78], Freq 1)],
      tokenPairs = [(0, 1), (1, 2), (2, 3), (3, 4), (4, 5), (5, 6)],
      heap = [(Num (- 1), JStr [0x78, 0xD83D, 0x78]), (Num (- 2), JStr [0xD83D, 0xDE00]),
              (Num (- 2), JStr [0xDE00, 0x78])],
      newTokenPairs = [(0, 2), (1, 2)]\<rparr> =
     \<lparr>bpe = b,
      tokens = [JStr [0x78, 0xD83D], JStr [0xDE00], JStr [0x78, 0xD83D], JStr [0xDE00],
                JStr [0x78]],
      pairFreqs = [([0x78, 0xD83D], Freq 2), ([0xD83D, 0xDE00], Freq 2), ([0xDE00, 0x78], Freq 2),
                   ([0x78, 0xD83D, 0x78], Freq 2), ([0xDE00, 0x78, 0xD83D], Freq 1)],
      tokenPairs = [(0, 1), (1, 2), (2, 3), (3, 4), (4, 5), (5, 6)],
      heap = [(Num (- 1), JStr [0x78, 0xD83D, 0x78]), (Num (- 1), JStr [0xDE00, 0x78, 0xD83D]),
              (Num (- 2), JStr [0xDE00, 0x78]), (Num (- 2), JStr [0xD83D, 0xDE00]),
              (Num (- 2), JStr [0x78, 0xD83D, 0x78])],
      newTokenPairs = [(0, 2), (1, 2), (1, 2), (2, 4)]\<rparr>"
proof (rule rescan_step_fuse [where left = 2 and right = 3])
  let ?t = "[JStr [0x78, 0xD83D], JStr [0xDE00], JStr [0x78, 0xD83D], JStr [0xDE00], JStr [0x78]]"
  let ?tp = "[(0, 1), (1, 2), (2, 3), (3, 4), (4, 5), (5, 6)]"
  let ?s = "\<lparr>bpe = b,
      tokens = [JStr [0x78, 0xD83D], JStr [0xDE00], JStr [0x78], JStr [0xD83D],
                JStr [0xDE00], JStr [0x78]],
      pairFreqs = [([0x78, 0xD83D], Freq 2), ([0xD83D, 0xDE00], Freq 2), ([0xDE00, 0x78], Freq 2),
                   ([0x78, 0xD83D, 0x78], Freq 1)],
      tokenPairs = ?tp,
      heap = [(Num (- 1), JStr [0x78, 0xD83D, 0x78]), (Num (- 2), JStr [0xD83D, 0xDE00]),
              (Num (- 2), JStr [0xDE00, 0x78])],
      newTokenPairs = [(0, 2), (1, 2)]\<rparr>"
  let ?s1 = "\<lparr>bpe = b, tokens = ?t,
      pairFreqs = [([0x78, 0xD83D], Freq 2), ([0xD83D, 0xDE00], Freq 2), ([0xDE00, 0x78], Freq 2),
                   ([0x78, 0xD83D, 0x78], Freq 1)],
      tokenPairs = ?tp,
      heap = [(Num (- 1), JStr [0x78, 0xD83D, 0x78]), (Num (- 2), JStr [0xD83D, 0xDE00]),
              (Num (- 2), JStr [0xDE00, 0x78])],
      newTokenPairs = [(0, 2), (1, 2)]\<rparr>"
  let ?s2 = "\<lparr>bpe = b, tokens = ?t,
      pairFreqs = [([0x78, 0xD83D], Freq 2), ([0xD83D, 0xDE00], Freq 2), ([0xDE00, 0x78], Freq 2),
                   ([0x78, 0xD83D, 0x78], Freq 1), ([0xDE00, 0x78, 0xD83D], Freq 1)],
      tokenPairs = ?tp,
      heap = [(Num (- 1), JStr [0x78, 0xD83D, 0x78]), (Num (- 1), JStr [0xDE00, 0x78, 0xD83D]),
              (Num (- 2), JStr [0xDE00, 0x78]), (Num (- 2), JStr [0xD83D, 0xDE00])],
      newTokenPairs = [(0, 2), (1, 2), (1, 2)]\<rparr>"
  show "tokenPairs ?s ! 2 = (2, 3)" by simp
  show "js_plus (js_index (tokens ?s) 2) (js_index (tokens ?s) 3) = JStr [0x78, 0xD83D]"
    by (simp add: js_index_def)
  show "?s1 = ?s\<lparr>tokens := js_splice1 (js_assign (tokens ?s) 2 (JStr [0x78, 0xD83D])) 3\<rparr>"
    by (simp add: js_assign_def js_splice1_def)
  have "push_pair (JStr [0xDE00, 0x78, 0xD83D]) (1, 2) ?s1 = ?s2"
    by (rule trans [OF push_pair_eval [OF refl refl refl]])
       (simp add: pf_increment_surrogate_1 pf_neg_def pf_get_def heap_insert_surrogate_1)
  then show "?s2 = (if 2 > (0::nat) then
       push_pair
         (js_plus (js_index (tokens ?s1) (fst (tokenPairs ?s1 ! (2 - 1)))) (js_index (tokens ?s1) 2))
         (fst (tokenPairs ?s1 ! (2 - 1)), 2) ?s1
     else ?s1)"
    by (simp add: js_index_def)
  have "push_pair (JStr [0x78, 0xD83D, 0x78]) (2, 4) ?s2 =
     \<lparr>bpe = b, tokens = ?t,
      pairFreqs = [([0x78, 0xD83D], Freq 2), ([0xD83D, 0xDE00], Freq 2), ([0xDE00, 0x78], Freq 2),
                   ([0x78, 0xD83D, 0x78], Freq 2), ([0xDE00, 0x78, 0xD83D], Freq 1)],
      tokenPairs = ?tp,
      heap = [(Num (- 1), JStr [0x78, 0xD83D, 0x78]), (Num (- 1), JStr [0xDE00, 0x78, 0xD83D]),
              (Num (- 2), JStr [0xDE00, 0x78]), (Num (- 2), JStr [0xD83D, 0xDE00]),
              (Num (- 2), JStr [0x78, 0xD83D, 0x78])],
      newTokenPairs = [(0, 2), (1, 2), (1, 2), (2, 4)]\<rparr>"
    by (rule trans [OF push_pair_eval [OF refl refl refl]])
       (simp add: pf_increment_surrogate_2 pf_neg_def pf_get_def heap_insert_surrogate_2)
  then show "\<lparr>bpe = b, tokens = ?t,
      pairFreqs = [([0x78, 0xD83D], Freq 2), ([0xD83D, 0xDE00], Freq 2), ([0xDE00, 0x78], Freq 2),
                   ([0x78, 0xD83D, 0x78], Freq 2), ([0xDE00, 0x78, 0xD83D], Freq 1)],
      tokenPairs = ?tp,
      heap = [(Num (- 1), JStr [0x78, 0xD83D, 0x78]), (Num (- 1), JStr [0xDE00, 0x78, 0xD83D]),
              (Num (- 2), JStr [0xDE00, 0x78]), (Num (- 2), JStr [0xD83D, 0xDE00]),
              (Num (- 2), JStr [0x78, 0xD83D, 0x78])],
      newTokenPairs = [(0, 2), (1, 2), (1, 2), (2, 4)]\<rparr> =
     (if 2 + 1 < length (tokenPairs ?s2) then
       push_pair
         (js_plus (js_index (tokens ?s2) 2) (js_index (tokens ?s2) (snd (tokenPairs ?s2 ! (2 + 1)))))
         (2, snd (tokenPairs ?s2 ! (2 + 1))) ?s2
     else ?s2)"
    by (simp add: js_index_def)
qed

lemma rescan_surrogate_skip:
  "j \<in> {3, 4, 5} \<Longrightarrow>
   rescan_step [0x78, 0xD83D] j
     \<lparr>bpe = b,
      tokens = [JStr [0x78, 0xD83D], JStr [0xDE00], JStr [0x78, 0xD83D], JStr [0xDE00],
                JStr [0x78]],
      pairFreqs = pf,
      tokenPairs = [(0, 1), (1, 2), (2, 3), (3, 4), (4, 5), (5, 6)],
      heap = h,
      newTokenPairs = ps\<rparr> =
     \<lparr>bpe = b,
      tokens = [JStr [0x78, 0xD83D], JStr [0xDE00], JStr [0x78, 0xD83D], JStr [0xDE00],
                JStr [0x78]],
      pairFreqs = pf,
      tokenPairs = [(0, 1), (1, 2), (2, 3), (3, 4), (4, 5), (5, 6)],
      heap = h,
      newTokenPairs = ps @ [(j, j + 1)]\<rparr>"
  by (auto simp add: rescan_step_def js_index_def utf16_def)

lemma heap_rescan_loop_surrogate_text:
  "heap (rescan_loop [0x78, 0xD83D] 0
     \<lparr>bpe = b,
      tokens = [JStr [0x78], JStr [0xD83D], JStr [0xDE00], JStr [0x78], JStr [0xD83D],
                JStr [0xDE00], JStr [0x78]],
      pairFreqs = [([0x78, 0xD83D], Freq 2), ([0xD83D, 0xDE00], Freq 2), ([0xDE00, 0x78], Freq 2)],
      tokenPairs = [(0, 1), (1, 2), (2, 3), (3, 4), (4, 5), (5, 6)],
      heap = [(Num (- 2), JStr [0xDE00, 0x78]), (Num (- 2), JStr [0xD83D, 0xDE00])],
      newTokenPairs = []\<rparr>) =
     [(Num (- 1), JStr [0x78, 0xD83D, 0x78]), (Num (- 1), JStr [0xDE00, 0x78, 0xD83D]),
      (Num (- 2), JStr [0xDE00, 0x78]), (Num (- 2), JStr [0xD83D, 0xDE00]),
      (Num (- 2), JStr [0x78, 0xD83D, 0x78])]"
proof -
  let ?tok = "[0x78, 0xD83D] :: jsstring"
  let ?tp = "[(0, 1), (1, 2), (2, 3), (3, 4), (4, 5), (5, 6)] :: (nat \<times> nat) list"
  let ?pf = "[([0x78, 0xD83D], Freq 2), ([0xD83D, 0xDE00], Freq 2), ([0xDE00, 0x78], Freq 2),
             ([0x78, 0xD83D, 0x78], Freq 1)]"
  let ?h = "[(Num (- 1), JStr [0x78, 0xD83D, 0x78]), (Num (- 2), JStr [0xD83D, 0xDE00]),
            (Num (- 2), JStr [0xDE00, 0x78])]"
  let ?S0 = "\<lparr>bpe = b,
      tokens = [JStr [0x78], JStr [0xD83D], JStr [0xDE00], JStr [0x78], JStr [0xD83D],
                JStr [0xDE00], JStr [0x78]],
      pairFreqs = [([0x78, 0xD83D], Freq 2), ([0xD83D, 0xDE00], Freq 2), ([0xDE00, 0x78], Freq 2)],
      tokenPairs = ?tp,
      heap = [(Num (- 2), JStr [0xDE00, 0x78]), (Num (- 2), JStr [0xD83D, 0xDE00])],
      newTokenPairs = []\<rparr>"
  let ?A = "\<lambda>ps. \<lparr>bpe = b,
      tokens = [JStr ?tok, JStr [0xDE00], JStr [0x78], JStr [0xD83D], JStr [0xDE00], JStr [0x78]],
      pairFreqs = ?pf, tokenPairs = ?tp, heap = ?h, newTokenPairs = ps\<rparr>"
  let ?B = "\<lambda>ps. \<lparr>bpe = b,
      tokens = [JStr ?tok, JStr [0xDE00], JStr ?tok, JStr [0xDE00], JStr [0x78]],
      pairFreqs = [([0x78, 0xD83D], Freq 2), ([0xD83D, 0xDE00], Freq 2), ([0xDE00, 0x78], Freq 2),
                   ([0x78, 0xD83D, 0x78], Freq 2), ([0xDE00, 0x78, 0xD83D], Freq 1)],
      tokenPairs = ?tp,
      heap = [(Num (- 1), JStr [0x78, 0xD83D, 0x78]), (Num (- 1), JStr [0xDE00, 0x78, 0xD83D]),
              (Num (- 2), JStr [0xDE00, 0x78]), (Num (- 2), JStr [0xD83D, 0xDE00]),
              (Num (- 2), JStr [0x78, 0xD83D, 0x78])],
      newTokenPairs = ps\<rparr>"
  have e6: "rescan_loop ?tok 6 (?B [(0, 2), (1, 2), (1, 2), (2, 4), (3, 4), (4, 5), (5, 6)]) =
      ?B [(0, 2), (1, 2), (1, 2), (2, 4), (3, 4), (4, 5), (5, 6)]"
    by (rule rescan_loop_stop) simp
  have e5: "rescan_loop ?tok 5 (?B [(0, 2), (1, 2), (1, 2), (2, 4), (3, 4), (4, 5)]) =
      ?B [(0, 2), (1, 2), (1, 2), (2, 4), (3, 4), (4, 5), (5, 6)]"
    by (rule trans [OF rescan_loop_step]) (simp_all del: One_nat_def add: rescan_surrogate_skip e6)
  have e4: "rescan_loop ?tok 4 (?B [(0, 2), (1, 2), (1, 2), (2, 4), (3, 4)]) =
      ?B [(0, 2), (1, 2), (1, 2), (2, 4), (3, 4), (4, 5), (5, 6)]"
    by (rule trans [OF rescan_loop_step]) (simp_all del: One_nat_def add: rescan_surrogate_skip e5)
  have e3: "rescan_loop ?tok 3 (?B [(0, 2), (1, 2), (1, 2), (2, 4)]) =
      ?B [(0, 2), (1, 2), (1, 2), (2, 4), (3, 4), (4, 5), (5, 6)]"
    by (rule trans [OF rescan_loop_step]) (simp_all del: One_nat_def add: rescan_surrogate_skip e4)
  have e2: "rescan_loop ?tok 2 (?A [(0, 2), (1, 2)]) =
      ?B [(0, 2), (1, 2), (1, 2), (2, 4), (3, 4), (4, 5), (5, 6)]"
    by (rule trans [OF rescan_loop_step]) (simp_all del: One_nat_def add: rescan_surrogate_2 e3)
  have e1: "rescan_loop ?tok 1 (?A [(0, 2)]) =
      ?B [(0, 2), (1, 2), (1, 2), (2, 4), (3, 4), (4, 5), (5, 6)]"
    by (rule trans [OF rescan_loop_step]) (simp_all del: One_nat_def add: rescan_surrogate_1 e2)
  have e0: "rescan_loop ?tok 0 ?S0 =
      ?B [(0, 2), (1, 2), (1, 2), (2, 4), (3, 4), (4, 5), (5, 6)]"
    by (rule trans [OF rescan_loop_step]) (simp_all del: One_nat_def add: rescan_surrogate_0 e1)
  show ?thesis unfolding e0 by simp
qed

lemma train_init_surrogate_text:
  "train_init this surrogate_text =
     \<lparr>bpe = this,
      tokens = [JStr [0x78], JStr [0xD83D], JStr [0xDE00], JStr [0x78], JStr [0xD83D],
                JStr [0xDE00], JStr [0x78]],
      pairFreqs = [([0x78, 0xD83D], Freq 2), ([0xD83D, 0xDE00], Freq 2), ([0xDE00, 0x78], Freq 2)],
      tokenPairs = [(0, 1), (1, 2), (2, 3), (3, 4), (4, 5), (5, 6)],
      heap = [(Num (- 2), JStr [0x78, 0xD83D]), (Num (- 2), JStr [0xD83D, 0xDE00]),
              (Num (- 2), JStr [0xDE00, 0x78])],
      newTokenPairs = []\<rparr>"
  by (simp add: train_init_def surrogate_text_def eval_loops eval_pairs)

lemma merge_loop_surrogate_text:
  "fst (merge_loop (Suc n) (train_init this surrogate_text)) = None \<and>
   bpe (snd (merge_loop (Suc n) (train_init this surrogate_text))) =
     this\<lparr>model := vocab_assign (model this) [0x78, 0xD83D] (int (length (model this)) + 1),
          trie := trie_insert (trie this) [0x78, 0xD83D]
            (vocab_read (vocab_assign (model this) [0x78, 0xD83D] (int (length (model this)) + 1))
               [0x78, 0xD83D])\<rparr>"
proof -
  let ?P = "\<lparr>bpe = this,
      tokens = [JStr [0x78], JStr [0xD83D], JStr [0xDE00], JStr [0x78], JStr [0xD83D],
                JStr [0xDE00], JStr [0x78]],
      pairFreqs = [([0x78, 0xD83D], Freq 2), ([0xD83D, 0xDE00], Freq 2), ([0xDE00, 0x78], Freq 2)],
      tokenPairs = [(0, 1), (1, 2), (2, 3), (3, 4), (4, 5), (5, 6)],
      heap = [(Num (- 2), JStr [0xDE00, 0x78]), (Num (- 2), JStr [0xD83D, 0xDE00])],
      newTokenPairs = []\<rparr>"
  let ?H = "[(Num (- 1), JStr [0x78, 0xD83D, 0x78]), (Num (- 1), JStr [0xDE00, 0x78, 0xD83D]),
      (Num (- 2), JStr [0xDE00, 0x78]), (Num (- 2), JStr [0xD83D, 0xDE00]),
      (Num (- 2), JStr [0x78, 0xD83D, 0x78])]"
  have pop: "extractMax [(Num (- 2), JStr [0x78, 0xD83D]), (Num (- 2), JStr [0xD83D, 0xDE00]),
              (Num (- 2), JStr [0xDE00, 0x78])] =
     Inr ((Num (- 2), JStr [0x78, 0xD83D]),
          [(Num (- 2), JStr [0xDE00, 0x78]), (Num (- 2), JStr [0xD83D, 0xDE00])])"
    by (simp add: extractMax_def isEmpty_def eval_loops eval_pairs)
  have rep: "best_replace (JStr [0x78, 0xD83D]) = Inr [0x78, 0xD83D]"
    by (simp add: best_replace_def)
  have first: "merge_loop (Suc n) (train_init this surrogate_text) =
      merge_loop n (apply_merge [0x78, 0xD83D] ?P)"
    unfolding train_init_surrogate_text
    by (simp add: merge_loop.simps isEmpty_def pop rep)
  have h: "heap (apply_merge [0x78, 0xD83D] ?P) = ?H"
    by (simp del: One_nat_def add: apply_merge_def Let_def heap_rescan_loop_surrogate_text)
  have pop2: "extractMax ?H =
     Inr ((Num (- 1), JStr [0x78, 0xD83D, 0x78]),
          [(Num (- 1), JStr [0xDE00, 0x78, 0xD83D]), (Num (- 2), JStr [0x78, 0xD83D, 0x78]),
           (Num (- 2), JStr [0xDE00, 0x78]), (Num (- 2), JStr [0xD83D, 0xDE00])])"
    by (simp add: extractMax_def isEmpty_def eval_loops eval_pairs)
  have stop: "fst (merge_loop n s) = None \<and> bpe (snd (merge_loop n s)) = bpe s"
    if "heap s = ?H" for s
    using that by (cases n) (simp_all add: merge_loop.simps isEmpty_def pop2)
  from stop [OF h] show ?thesis
    unfolding first by (simp add: bpe_apply_merge)
qed

lemma engine_after_surrogate_text:
  "engine_after this (JString surrogate_text) (Suc n) =
     this\<lparr>model := vocab_assign (model this) [0x78, 0xD83D] (int (length (model this)) + 1),
          trie := trie_insert (trie this) [0x78, 0xD83D]
            (vocab_read (vocab_assign (model this) [0x78, 0xD83D] (int (length (model this)) + 1))
               [0x78, 0xD83D])\<rparr>"
  using merge_loop_surrogate_text [of n this]
  by (cases "merge_loop (Suc n) (train_init this surrogate_text)")
     (simp add: engine_after_def train_def)

text \<open>
  C8 on the code. An engine made without a vocabulary file is trained on the text \<open>x\<close>,
  U+1F600, \<open>x\<close>, U+1F600, \<open>x\<close> with the default \<open>k = 500\<close>. \<open>train\<close> works by code units and learns the
  token \<open>x\<close>, D83D, which it inserts into the trie. The same text begins with that token
  and no longer text is in the trie, but \<open>longestPrefixMatch\<close> walks by code points, reads
  D83D, DE00 as one \<^verbatim>\<open>char\<close>, finds no such child and returns \<^verbatim>\<open>null\<close>; \<open>tokenize\<close> yields
  seven tokens of one code unit. The same holds for a trie that \<^verbatim>\<open>insert\<close> filled with the
  one text \<open>x\<close>, D83D.
\<close>

theorem trained_token_not_matched:
  "model (engine_after (new_BPE Map.empty (utf16 ''abc.json'') False) (JString surrogate_text) 500) =
     [([0x78, 0xD83D], 1)] \<and>
   longestPrefixMatch
     (trie (engine_after (new_BPE Map.empty (utf16 ''abc.json'') False) (JString surrogate_text) 500))
     surrogate_text = None \<and>
   tokenize (engine_after (new_BPE Map.empty (utf16 ''abc.json'') False) (JString surrogate_text) 500)
     surrogate_text =
     Some [[0x78], [0xD83D], [0xDE00], [0x78], [0xD83D], [0xDE00], [0x78]] \<and>
   longestPrefixMatch (trie_of [([0x78, 0xD83D], Id 1)]) ([0x78, 0xD83D] @ [0xDE00]) = None"
proof -
  let ?E = "new_BPE Map.empty (utf16 ''abc.json'') False"
  have k: "(500::nat) = Suc 499" by simp
  have e: "engine_after ?E (JString surrogate_text) 500 =
     ?E\<lparr>model := [([0x78, 0xD83D], 1)],
         trie := trie_insert new_TrieNode [0x78, 0xD83D] (Id 1)\<rparr>"
    unfolding k engine_after_surrogate_text
    by (simp add: new_BPE_def load_vocabulary_def objectEntries_def vocab_assign_def
          vocab_read_def utf16_def)
  have "tokenize (?E\<lparr>model := [([0x78, 0xD83D], 1)],
         trie := trie_insert new_TrieNode [0x78, 0xD83D] (Id 1)\<rparr>) surrogate_text =
     Some [[0x78], [0xD83D], [0xDE00], [0x78], [0xD83D], [0xDE00], [0x78]]"
    by (simp add: tokenize_def surrogate_text_def tokenize_loop_step tokenize_loop_stop
        tokenize_step_def longestPrefixMatch_def trie_insert_def new_TrieNode_def
        isHighSurrogate_def isLowSurrogate_def)
  moreover have "longestPrefixMatch (trie_insert new_TrieNode [0x78, 0xD83D] (Id 1)) surrogate_text = None"
    by (simp add: surrogate_text_def longestPrefixMatch_def trie_insert_def new_TrieNode_def
        isHighSurrogate_def isLowSurrogate_def)
  moreover have "longestPrefixMatch (trie_of [([0x78, 0xD83D], Id 1)]) ([0x78, 0xD83D] @ [0xDE00]) = None"
    by (simp add: trie_of_def trie_insert_def longestPrefixMatch_def isHighSurrogate_def
      isLowSurrogate_def new_TrieNode_def)
  ultimately show ?thesis unfolding e by simp
qed

end
